theory Spec2Isabelle
  imports Main
begin

section \<open>JavaScript values handled by the container\<close>

text \<open>
  The container of \<^verbatim>\<open>src/main.js\<close> moves values around without looking into most of
  them.  Functions are kept symbolic: a function defined outside the container is
  \<open>Extern\<close>, and the two closures that \<^verbatim>\<open>createCreator\<close> builds are constructors
  of their own, holding the variables they capture.
\<close>

type_synonym addr = nat

datatype jsval =
    Undefined
  | Null
  | Bool bool
  | Num int
  | Str string
  | Extern string
  | Record "(string \<times> jsval) list"
  | Inst addr
  | ModuleFactory jsval jsval
  | CreatorWrapper jsval

text \<open>\<^verbatim>\<open>typeof v === 'function'\<close>, \<^verbatim>\<open>typeof v === 'string'\<close> and the truth value of \<open>v\<close>.\<close>

fun isFunction :: "jsval \<Rightarrow> bool" where
  "isFunction (Extern _) = True"
| "isFunction (ModuleFactory _ _) = True"
| "isFunction (CreatorWrapper _) = True"
| "isFunction _ = False"

fun isString :: "jsval \<Rightarrow> bool" where
  "isString (Str _) = True"
| "isString _ = False"

fun truthy :: "jsval \<Rightarrow> bool" where
  "truthy Undefined = False"
| "truthy Null = False"
| "truthy (Bool b) = b"
| "truthy (Num n) = (n \<noteq> 0)"
| "truthy (Str s) = (s \<noteq> [])"
| "truthy _ = True"

text \<open>\<^verbatim>\<open>a || b\<close>\<close>

definition orElse :: "jsval \<Rightarrow> jsval \<Rightarrow> jsval" where
  "orElse a b = (if truthy a then a else b)"

text \<open>
  The property read \<^verbatim>\<open>module[creator]\<close>: a \<^verbatim>\<open>TypeError\<close> on \<^verbatim>\<open>undefined\<close> and
  \<^verbatim>\<open>null\<close>, the member of a plain object, and \<^verbatim>\<open>undefined\<close> where the member is
  missing.
\<close>

fun member :: "jsval \<Rightarrow> string \<Rightarrow> string + jsval" where
  "member Undefined k = Inl ''TypeError''"
| "member Null k = Inl ''TypeError''"
| "member (Record fs) k = Inr (case map_of fs k of None \<Rightarrow> Undefined | Some v \<Rightarrow> v)"
| "member _ k = Inr Undefined"

section \<open>Configurations and components\<close>

text \<open>
  An array or a properties object that a configuration mentions is either written by
  the caller (\<open>Fresh\<close>, not yet known to the container) or is the very object that a
  registered component already holds (\<open>Held\<close>, as \<^verbatim>\<open>u.merge\<close> copies references).
\<close>

datatype 'a given = Fresh 'a | Held addr

text \<open>
  \<^verbatim>\<open>ComponentConfig\<close> and \<^verbatim>\<open>DependencyConfig\<close> of the source's type definitions.  A field
  that is absent is \<open>None\<close>.  A dependency is a plain value or an object with the
  optional keys \<^verbatim>\<open>$import\<close>, \<^verbatim>\<open>$ref\<close> and \<^verbatim>\<open>id\<close> besides the fields of a configuration.
\<close>

datatype depval =
    Lit jsval
  | Cfg (importOf: "string option") (refOf: "string option") (idOf: "string option")
        (configOf: config)
and config =
    Config (cfg_args: "depval list given option")
           (cfg_properties: "(string \<times> depval) list given option")
           (cfg_scope: "string option")
           (cfg_creator: "jsval option")
           (cfg_module: "jsval option")
           (cfg_isFactory: "bool option")
           (cfg_auto: "bool option")

record component =
  id_of :: string
  args :: addr
  properties :: addr
  anonyDeps :: "string list option"
  argDeps :: "string list option"
  propDeps :: "string list option"
  setterDeps :: "string list option"
  scope :: string
  creator :: jsval
  module_of :: jsval
  isFactory :: bool
  auto :: bool
  instance_of :: jsval


section \<open>The container's state\<close>

text \<open>
  \<^verbatim>\<open>this.components\<close> maps an id to a component object.  Component objects, argument
  arrays and properties objects are mutated in place and shared (\<^verbatim>\<open>u.merge\<close> copies
  references), so each lives in a store under an address.  A properties object is
  the list of its keys and values in the order of \<^verbatim>\<open>for (k in props)\<close>.
  \<open>warnings\<close> is what \<^verbatim>\<open>u.warn\<close> has printed.
\<close>

record ioc =
  components :: "string \<rightharpoonup> addr"
  objects :: "addr \<rightharpoonup> component"
  arrays :: "addr \<rightharpoonup> depval list"
  propmaps :: "addr \<rightharpoonup> (string \<times> depval) list"
  fresh :: addr
  warnings :: "string list"

text \<open>A call returns a value and the state it leaves, or throws and leaves a state.\<close>

datatype ('r, 's) res = Returned 'r 's | Thrown string 's

text \<open>
  The dependency parser is given to the constructor (\<^verbatim>\<open>config.parser || Parser\<close>); the
  container only calls its four methods.  \<open>'s\<close> is the state the parser may read
  through its \<^verbatim>\<open>context\<close>; a module map is the list of its keys with the pending
  component objects of each.
\<close>

type_synonym modmap = "(string \<times> addr list) list"

record 's parser =
  getDepsFromArgs :: "depval list \<Rightarrow> string list"
  getDepsFromProperties :: "(string \<times> depval) list \<Rightarrow> string list"
  getDepsFromSetters :: "'s \<Rightarrow> jsval \<Rightarrow> (string \<times> depval) list \<Rightarrow> string list"
  getDependentModules :: "'s \<Rightarrow> addr \<Rightarrow> modmap \<Rightarrow> string list option \<Rightarrow> modmap"

definition ANONY_PREFIX :: string where
  "ANONY_PREFIX = ''^uioc-''"

definition warn :: "string \<Rightarrow> 'a ioc_scheme \<Rightarrow> 'a ioc_scheme" where
  "warn msg s = s\<lparr>warnings := warnings s @ [msg]\<rparr>"

definition alloc_array :: "depval list \<Rightarrow> 'a ioc_scheme \<Rightarrow> addr \<times> 'a ioc_scheme" where
  "alloc_array xs s = (fresh s, s\<lparr>arrays := (arrays s)(fresh s \<mapsto> xs), fresh := Suc (fresh s)\<rparr>)"

definition alloc_props :: "(string \<times> depval) list \<Rightarrow> 'a ioc_scheme \<Rightarrow> addr \<times> 'a ioc_scheme" where
  "alloc_props ps s =
     (fresh s, s\<lparr>propmaps := (propmaps s)(fresh s \<mapsto> ps), fresh := Suc (fresh s)\<rparr>)"

definition alloc_object :: "component \<Rightarrow> 'a ioc_scheme \<Rightarrow> addr \<times> 'a ioc_scheme" where
  "alloc_object c s =
     (fresh s, s\<lparr>objects := (objects s)(fresh s \<mapsto> c), fresh := Suc (fresh s)\<rparr>)"

section \<open>Registration\<close>

subsection \<open>\<^verbatim>\<open>createCreator\<close> (lines 212 to 232)\<close>

definition createCreator :: "component \<Rightarrow> jsval \<Rightarrow> string + component" where
  "createCreator c m =
     (let creator0 = orElse (creator c) m;
          bound = (case creator0 of
                     Str name \<Rightarrow>
                       (case member m name of
                          Inl e \<Rightarrow> Inl e
                        | Inr method \<Rightarrow>
                            Inr (if \<not> isFactory c \<or> scope c = ''static'' then method
                                 else ModuleFactory m method))
                   | _ \<Rightarrow> Inr creator0)
      in case bound of
           Inl e \<Rightarrow> Inl e
         | Inr creator1 \<Rightarrow>
             Inr (c\<lparr>creator := (if \<not> isFactory c \<and> scope c \<noteq> ''static''
                                then CreatorWrapper creator1 else creator1)\<rparr>))"

subsection \<open>\<^verbatim>\<open>createComponent\<close> (lines 189 to 210)\<close>

text \<open>
  The array and the properties object of the configuration become the component's:
  one written by the caller enters the store here, one inherited through \<^verbatim>\<open>u.merge\<close>
  is shared.  The wrapping of a function creator cannot throw (lemma
  \<open>createCreator_function\<close> below), so that branch keeps the component.
\<close>

definition createComponent ::
  "string \<Rightarrow> config \<Rightarrow> 'a ioc_scheme \<Rightarrow> component \<times> 'a ioc_scheme" where
  "createComponent k config s =
     (let (a, s1) = (case cfg_args config of
                       None \<Rightarrow> alloc_array [] s
                     | Some (Fresh xs) \<Rightarrow> alloc_array xs s
                     | Some (Held p) \<Rightarrow> (p, s));
          (p, s2) = (case cfg_properties config of
                       None \<Rightarrow> alloc_props [] s1
                     | Some (Fresh ps) \<Rightarrow> alloc_props ps s1
                     | Some (Held q) \<Rightarrow> (q, s1));
          c = \<lparr> id_of = k, args = a, properties = p,
                anonyDeps = None, argDeps = None, propDeps = None, setterDeps = None,
                scope = (case cfg_scope config of
                           None \<Rightarrow> ''transient''
                         | Some sc \<Rightarrow> if sc = [] then ''transient'' else sc),
                creator = (case cfg_creator config of None \<Rightarrow> Null | Some v \<Rightarrow> orElse v Null),
                module_of = (case cfg_module config of
                               None \<Rightarrow> Undefined | Some v \<Rightarrow> orElse v Undefined),
                isFactory = (case cfg_isFactory config of None \<Rightarrow> False | Some b \<Rightarrow> b),
                auto = (case cfg_auto config of None \<Rightarrow> False | Some b \<Rightarrow> b),
                instance_of = Null \<rparr>
      in (if isFunction (creator c)
          then (case createCreator c Undefined of Inr c' \<Rightarrow> c' | Inl e \<Rightarrow> c)
          else c, s2))"

subsection \<open>The helpers of \<^verbatim>\<open>util\<close> that registration uses\<close>

text \<open>
  Modelled from the spec: \<^verbatim>\<open>u.hasImport\<close> and \<^verbatim>\<open>u.hasReference\<close> of the missing
  \<^verbatim>\<open>util\<close> module: a value shaped as \<^verbatim>\<open>{ $import: id, ... }\<close>, respectively
  \<^verbatim>\<open>{ $ref: id }\<close>.
\<close>

fun hasImport :: "depval \<Rightarrow> bool" where
  "hasImport (Cfg (Some i) r d c) = True"
| "hasImport _ = False"

fun hasReference :: "depval \<Rightarrow> bool" where
  "hasReference (Cfg i (Some r) d c) = True"
| "hasReference _ = False"

text \<open>
  Modelled from the spec: \<^verbatim>\<open>u.merge\<close> of the missing \<^verbatim>\<open>util\<close> module: the override
  configuration shallow-merged onto a copy of the imported definition.  Of the
  merged object only the seven fields that \<^verbatim>\<open>createComponent\<close> reads are kept.
\<close>

definition merge :: "component \<Rightarrow> config \<Rightarrow> config" where
  "merge r c = Config
     (case cfg_args c of None \<Rightarrow> Some (Held (args r)) | Some a \<Rightarrow> Some a)
     (case cfg_properties c of None \<Rightarrow> Some (Held (properties r)) | Some p \<Rightarrow> Some p)
     (case cfg_scope c of None \<Rightarrow> Some (scope r) | Some x \<Rightarrow> Some x)
     (case cfg_creator c of None \<Rightarrow> Some (creator r) | Some x \<Rightarrow> Some x)
     (case cfg_module c of None \<Rightarrow> Some (module_of r) | Some x \<Rightarrow> Some x)
     (case cfg_isFactory c of None \<Rightarrow> Some (isFactory r) | Some x \<Rightarrow> Some x)
     (case cfg_auto c of None \<Rightarrow> Some (auto r) | Some x \<Rightarrow> Some x)"

text \<open>\<^verbatim>\<open>s.indexOf(p) !== -1\<close>\<close>

fun occurs :: "string \<Rightarrow> string \<Rightarrow> bool" where
  "occurs p [] = (p = [])"
| "occurs p (c # cs) = (take (length p) (c # cs) = p \<or> occurs p cs)"

subsection \<open>\<^verbatim>\<open>getComponentConfig\<close> (lines 164 to 166)\<close>

definition getComponentConfig :: "'a ioc_scheme \<Rightarrow> string \<Rightarrow> addr option" where
  "getComponentConfig s k = components s k"


subsection \<open>Dependency values in place\<close>

text \<open>
  A dependency object is reached as \<^verbatim>\<open>args[i]\<close> or \<^verbatim>\<open>props[k]\<close> and is changed where
  it stands.  Reading a slot that does not exist gives \<open>None\<close>.
\<close>

datatype slot = ArgSlot addr nat | PropSlot addr string

fun readSlot :: "'a ioc_scheme \<Rightarrow> slot \<Rightarrow> depval option" where
  "readSlot s (ArgSlot a i) =
     (case arrays s a of
        None \<Rightarrow> None
      | Some xs \<Rightarrow> if i < length xs then Some (xs ! i) else None)"
| "readSlot s (PropSlot p k) =
     (case propmaps s p of None \<Rightarrow> None | Some ps \<Rightarrow> map_of ps k)"

fun writeSlot :: "slot \<Rightarrow> depval \<Rightarrow> 'a ioc_scheme \<Rightarrow> 'a ioc_scheme" where
  "writeSlot (ArgSlot a i) v s =
     (case arrays s a of
        None \<Rightarrow> s
      | Some xs \<Rightarrow> s\<lparr>arrays := (arrays s)(a \<mapsto> xs[i := v])\<rparr>)"
| "writeSlot (PropSlot p k) v s =
     (case propmaps s p of
        None \<Rightarrow> s
      | Some ps \<Rightarrow>
          s\<lparr>propmaps := (propmaps s)(p \<mapsto> map (\<lambda>(k', v'). if k' = k then (k', v) else (k', v')) ps)\<rparr>)"

definition noConfig :: config where
  "noConfig = Config None None None None None None None"

text \<open>The object \<^verbatim>\<open>{ $ref: id }\<close>.\<close>

definition refTo :: "string \<Rightarrow> depval" where
  "refTo k = Cfg None (Some k) None noConfig"

definition updateObject :: "addr \<Rightarrow> (component \<Rightarrow> component) \<Rightarrow> 'a ioc_scheme \<Rightarrow> 'a ioc_scheme" where
  "updateObject a f s =
     (case objects s a of None \<Rightarrow> s | Some c \<Rightarrow> s\<lparr>objects := (objects s)(a \<mapsto> f c)\<rparr>)"

subsection \<open>\<^verbatim>\<open>createAnonymousComponent\<close> (lines 234 to 247)\<close>

text \<open>
  \<open>add\<close> is the call \<^verbatim>\<open>context.addComponent(id, ...)\<close>; it gives \<open>None\<close> when the
  recursion did not come back within its fuel.  \<open>owner\<close> is the component object
  whose dependency at \<open>sl\<close> carries the \<^verbatim>\<open>$import\<close>.  The error message is the first
  argument of \<^verbatim>\<open>new Error\<close>, the format string as written.
\<close>

definition importError :: string where
  "importError = ''$import `%s` component, but it is not exist, please check!!''"

definition anonymousId :: "string \<Rightarrow> string \<Rightarrow> string \<Rightarrow> string" where
  "anonymousId ownerId idPrefix importId =
     (let k = ownerId @ ''-'' @ idPrefix @ importId
      in (if occurs ANONY_PREFIX k then [] else ANONY_PREFIX) @ k)"

definition createAnonymousComponent ::
  "('a ioc_scheme \<Rightarrow> string \<Rightarrow> config \<Rightarrow> (unit, 'a ioc_scheme) res option) \<Rightarrow>
   'a ioc_scheme \<Rightarrow> addr \<Rightarrow> slot \<Rightarrow> string \<Rightarrow> (string, 'a ioc_scheme) res option" where
  "createAnonymousComponent add s owner sl idPrefix =
     (case readSlot s sl of
        Some (Cfg (Some importId) r d body) \<Rightarrow>
          (case getComponentConfig s importId of
             None \<Rightarrow> Some (Thrown importError s)
           | Some ra \<Rightarrow>
               (case (objects s ra, objects s owner) of
                  (Some refConfig, Some component) \<Rightarrow>
                    (let k = anonymousId (id_of component) idPrefix importId;
                         s1 = writeSlot sl (Cfg None r (Some k) body) s
                     in case add s1 k (merge refConfig body) of
                          None \<Rightarrow> None
                        | Some (Thrown e s2) \<Rightarrow> Some (Thrown e s2)
                        | Some (Returned u s2) \<Rightarrow> Some (Returned k s2))
                | _ \<Rightarrow> Some (Thrown ''TypeError'' s)))
      | _ \<Rightarrow> Some (Thrown ''TypeError'' s))"

subsection \<open>\<^verbatim>\<open>transferAnonymousComponents\<close> (lines 255 to 276)\<close>

definition pushAnonyDep :: "addr \<Rightarrow> string \<Rightarrow> 'a ioc_scheme \<Rightarrow> 'a ioc_scheme" where
  "pushAnonyDep owner k s =
     updateObject owner
       (\<lambda>c. c\<lparr>anonyDeps := Some ((case anonyDeps c of None \<Rightarrow> [] | Some ds \<Rightarrow> ds) @ [k])\<rparr>) s"

text \<open>
  The loop over the arguments, \<^verbatim>\<open>for (i = args.length - 1; i > -1; --i)\<close>:
  \<open>transferArgs add owner a n s\<close> runs it for the indices below \<open>n\<close>.
\<close>

fun transferArgs ::
  "('a ioc_scheme \<Rightarrow> string \<Rightarrow> config \<Rightarrow> (unit, 'a ioc_scheme) res option) \<Rightarrow>
   addr \<Rightarrow> addr \<Rightarrow> nat \<Rightarrow> 'a ioc_scheme \<Rightarrow> (unit, 'a ioc_scheme) res option" where
  "transferArgs add owner a 0 s = Some (Returned () s)"
| "transferArgs add owner a (Suc i) s =
     (case readSlot s (ArgSlot a i) of
        None \<Rightarrow> transferArgs add owner a i s
      | Some v \<Rightarrow>
          if hasImport v
          then (case createAnonymousComponent add s owner (ArgSlot a i) ''$arg.'' of
                  None \<Rightarrow> None
                | Some (Thrown e s1) \<Rightarrow> Some (Thrown e s1)
                | Some (Returned k s1) \<Rightarrow>
                    transferArgs add owner a i
                      (pushAnonyDep owner k (writeSlot (ArgSlot a i) (refTo k) s1)))
          else transferArgs add owner a i s)"

text \<open>The loop over the properties, \<^verbatim>\<open>for (k in props)\<close>, on the keys still to visit.\<close>

fun transferProps ::
  "('a ioc_scheme \<Rightarrow> string \<Rightarrow> config \<Rightarrow> (unit, 'a ioc_scheme) res option) \<Rightarrow>
   addr \<Rightarrow> addr \<Rightarrow> string list \<Rightarrow> 'a ioc_scheme \<Rightarrow> (unit, 'a ioc_scheme) res option" where
  "transferProps add owner p [] s = Some (Returned () s)"
| "transferProps add owner p (k # ks) s =
     (case readSlot s (PropSlot p k) of
        None \<Rightarrow> transferProps add owner p ks s
      | Some v \<Rightarrow>
          if hasImport v
          then (case createAnonymousComponent add s owner (PropSlot p k) ''$prop.'' of
                  None \<Rightarrow> None
                | Some (Thrown e s1) \<Rightarrow> Some (Thrown e s1)
                | Some (Returned j s1) \<Rightarrow>
                    transferProps add owner p ks
                      (pushAnonyDep owner j (writeSlot (PropSlot p k) (refTo j) s1)))
          else transferProps add owner p ks s)"

definition transferAnonymousComponents ::
  "('a ioc_scheme \<Rightarrow> string \<Rightarrow> config \<Rightarrow> (unit, 'a ioc_scheme) res option) \<Rightarrow>
   'a ioc_scheme \<Rightarrow> addr \<Rightarrow> (unit, 'a ioc_scheme) res option" where
  "transferAnonymousComponents add s owner =
     (case objects s owner of
        None \<Rightarrow> Some (Thrown ''TypeError'' s)
      | Some component \<Rightarrow>
          (let s1 = updateObject owner (\<lambda>c. c\<lparr>anonyDeps := Some []\<rparr>) s
           in case arrays s1 (args component) of
                None \<Rightarrow> Some (Thrown ''TypeError'' s1)
              | Some xs \<Rightarrow>
                  (case transferArgs add owner (args component) (length xs) s1 of
                     None \<Rightarrow> None
                   | Some (Thrown e s2) \<Rightarrow> Some (Thrown e s2)
                   | Some (Returned u s2) \<Rightarrow>
                       (case propmaps s2 (properties component) of
                          None \<Rightarrow> Some (Returned () s2)
                        | Some ps \<Rightarrow>
                            transferProps add owner (properties component) (map fst ps) s2))))"


subsection \<open>\<^verbatim>\<open>IoC.prototype.addComponent\<close> (lines 102 to 126)\<close>

text \<open>
  The argument is an id with its configuration, or an object from ids to
  configurations, given as the list of its keys in the order of \<^verbatim>\<open>for (k in id)\<close>.
\<close>

datatype addArg = ById string config | ByMap "(string \<times> config) list"

text \<open>
  Inside the loop \<open>id\<close> is the object of configurations, so \<^verbatim>\<open>this.components[id]\<close>
  reads the key that the object converts to, and the warning prints the same.
\<close>

definition objectKey :: string where
  "objectKey = ''[object Object]''"

text \<open>The first loop, \<^verbatim>\<open>for (var k in id)\<close>; \<open>ids\<close> collects the keys that were added.\<close>

fun addComponent_register ::
  "(string \<times> config) list \<Rightarrow> string list \<Rightarrow> 'a ioc_scheme \<Rightarrow> string list \<times> 'a ioc_scheme" where
  "addComponent_register [] ids s = (ids, s)"
| "addComponent_register ((k, config) # rest) ids s =
     (if components s objectKey \<noteq> None
      then addComponent_register rest ids
             (warn (objectKey @ '' has been add! This will be no effect'') s)
      else (let (c, s1) = createComponent k config s;
                (a, s2) = alloc_object c s1
            in addComponent_register rest (ids @ [k]) (s2\<lparr>components := (components s2)(k \<mapsto> a)\<rparr>)))"

text \<open>
  The second loop, \<^verbatim>\<open>for (i = ids.length - 1; i > -1; --i)\<close>, on the ids still to
  visit, last one first.
\<close>

fun addComponent_derive ::
  "('a ioc_scheme \<Rightarrow> string \<Rightarrow> config \<Rightarrow> (unit, 'a ioc_scheme) res option) \<Rightarrow>
   'a ioc_scheme parser \<Rightarrow> string list \<Rightarrow> 'a ioc_scheme \<Rightarrow> (unit, 'a ioc_scheme) res option" where
  "addComponent_derive add P [] s = Some (Returned () s)"
| "addComponent_derive add P (k # ks) s =
     (case getComponentConfig s k of
        None \<Rightarrow> Some (Thrown ''TypeError'' s)
      | Some a \<Rightarrow>
          (case objects s a of
             None \<Rightarrow> Some (Thrown ''TypeError'' s)
           | Some component \<Rightarrow>
               (case (if anonyDeps component = None
                      then transferAnonymousComponents add s a
                      else Some (Returned () s)) of
                  None \<Rightarrow> None
                | Some (Thrown e s1) \<Rightarrow> Some (Thrown e s1)
                | Some (Returned u s1) \<Rightarrow>
                    (case (arrays s1 (args component), propmaps s1 (properties component)) of
                       (Some xs, Some ps) \<Rightarrow>
                         addComponent_derive add P ks
                           (updateObject a
                              (\<lambda>c. c\<lparr>argDeps := Some (getDepsFromArgs P xs),
                                     propDeps := Some (getDepsFromProperties P ps)\<rparr>) s1)
                     | _ \<Rightarrow> Some (Thrown ''TypeError'' s1)))))"

definition addComponent_body ::
  "('a ioc_scheme \<Rightarrow> string \<Rightarrow> config \<Rightarrow> (unit, 'a ioc_scheme) res option) \<Rightarrow>
   'a ioc_scheme parser \<Rightarrow> 'a ioc_scheme \<Rightarrow> (string \<times> config) list \<Rightarrow>
   (unit, 'a ioc_scheme) res option" where
  "addComponent_body add P s conf =
     (let (ids, s1) = addComponent_register conf [] s
      in addComponent_derive add P (rev ids) s1)"

text \<open>
  \<^verbatim>\<open>addComponent\<close> calls itself: once for the form with an id, which wraps the
  configuration into an object and has nothing left to do afterwards (its own
  \<open>ids\<close> stays empty), and once for every \<^verbatim>\<open>$import\<close> through
  \<^verbatim>\<open>createAnonymousComponent\<close>.  The nesting of the latter is bounded by \<open>fuel\<close>;
  \<open>None\<close> says that the fuel did not suffice.
\<close>

fun addComponentMap ::
  "nat \<Rightarrow> 'a ioc_scheme parser \<Rightarrow> 'a ioc_scheme \<Rightarrow> (string \<times> config) list \<Rightarrow>
   (unit, 'a ioc_scheme) res option" where
  "addComponentMap 0 P s conf = None"
| "addComponentMap (Suc n) P s conf =
     addComponent_body (\<lambda>s' k c. addComponentMap n P s' [(k, c)]) P s conf"

fun addComponent ::
  "nat \<Rightarrow> 'a ioc_scheme parser \<Rightarrow> 'a ioc_scheme \<Rightarrow> addArg \<Rightarrow> (unit, 'a ioc_scheme) res option" where
  "addComponent n P s (ById k config) = addComponentMap n P s [(k, config)]"
| "addComponent n P s (ByMap conf) = addComponentMap n P s conf"


subsection \<open>The default parser and the empty container\<close>

text \<open>
  Modelled from the spec: the two methods of the missing \<^verbatim>\<open>DependencyParser\<close> that
  registration calls.  A value shaped as \<^verbatim>\<open>{ $ref: id }\<close> is a reference
  dependency, whose id is recorded in the dependency-id list in position order;
  any other value contributes no dependency.
\<close>

definition refIds :: "depval list \<Rightarrow> string list" where
  "refIds xs = concat (map (\<lambda>v. case v of Cfg i (Some r) d c \<Rightarrow> [r] | _ \<Rightarrow> []) xs)"

definition specDepsFromArgs :: "depval list \<Rightarrow> string list" where
  "specDepsFromArgs xs = refIds xs"

definition specDepsFromProperties :: "(string \<times> depval) list \<Rightarrow> string list" where
  "specDepsFromProperties ps = refIds (map snd ps)"

text \<open>The state that the constructor \<^verbatim>\<open>IoC\<close> sets up before it adds \<^verbatim>\<open>config.components\<close>.\<close>

definition emptyIoC :: ioc where
  "emptyIoC = \<lparr> components = Map.empty, objects = Map.empty, arrays = Map.empty,
                propmaps = Map.empty, fresh = 0, warnings = [] \<rparr>"

subsection \<open>Reading a registered component\<close>

definition componentAt :: "'a ioc_scheme \<Rightarrow> string \<Rightarrow> component option" where
  "componentAt s k = (case components s k of None \<Rightarrow> None | Some a \<Rightarrow> objects s a)"

definition creatorOnly :: "string \<Rightarrow> config" where
  "creatorOnly name = Config None None None (Some (Str name)) None None None"


section \<open>Retrieval: callbacks, the loader and the container\<close>

subsection \<open>Closures\<close>

text \<open>
  Everything after \<^verbatim>\<open>getComponent\<close> has called the module loader happens in
  callbacks.  Each closure of the source is a constructor that holds the variables
  the closure captures: \<open>UserCallback t\<close> is a callback of the caller (told apart by
  \<open>t\<close>), \<open>CreateInstances ids cb\<close> is \<^verbatim>\<open>u.bind(createInstances, this, ids, cb)\<close>,
  \<open>Loaded\<close> is the function that \<^verbatim>\<open>loadComponentModules\<close> hands to the loader,
  \<open>Task f index component\<close> and \<open>Done f\<close> are \<^verbatim>\<open>task(index, component)\<close> and
  \<^verbatim>\<open>done\<close> of the activation \<open>f\<close> of \<^verbatim>\<open>createInstances\<close>, \<open>InjectDeps\<close> is
  \<^verbatim>\<open>u.bind(injectDeps, context, instance, component, done)\<close>, \<open>Injected g type\<close> is
  \<^verbatim>\<open>u.bind(injected, null, type)\<close> of the activation \<open>g\<close> of \<^verbatim>\<open>injectDeps\<close>, and
  \<open>SetterCallback\<close> and \<open>PropCallback\<close> are the functions that
  \<^verbatim>\<open>injectSetterDependencies\<close> and \<^verbatim>\<open>injectPropDependencies\<close> pass to
  \<^verbatim>\<open>getComponent\<close>.  \<open>Construct\<close> belongs to the container (see below).
\<close>

datatype injtype = Prop | Setter

datatype cont =
    UserCallback nat
  | CreateInstances "string list" cont
  | Loaded modmap "string list" cont
  | Task addr nat "addr option"
  | Done addr
  | InjectDeps jsval addr cont
  | Injected addr injtype
  | SetterCallback jsval "string list" cont
  | PropCallback jsval addr "string list option" cont
  | Construct addr cont

text \<open>
  The calls that are still to be made in the current turn, in order.  A function
  that calls two functions in sequence, or calls one in a loop, leaves the later
  calls here while the first one runs.
\<close>

datatype idsArg = IdArray "string list" | IdValue jsval

datatype call =
    Invoke cont "jsval list"
  | CallGetComponent idsArg cont
  | CallLoader "string list" cont
  | CallCreateInstance "addr option" cont
  | LoopCreateInstances addr nat
  | CallInjectProp jsval addr cont
  | CallInjectSetter jsval addr cont
  | ReturnThis

text \<open>
  The log of a run.  What crosses the container's border: a call of
  \<^verbatim>\<open>getComponent\<close> from outside with its callback and ids, a call of the module
  loader, a call of a caller's callback, the return of \<^verbatim>\<open>getComponent\<close> to the caller,
  an exception, a call of a setter and an assignment to a field of an instance.
  What the two meeting points do: \<open>Counted f\<close> is \<^verbatim>\<open>--count\<close> and \<open>Applied f vs\<close> is
  \<^verbatim>\<open>cb.apply(null, instances)\<close> of line 309 in the activation \<open>f\<close> of
  \<^verbatim>\<open>createInstances\<close>; \<open>Signalled g type\<close> is \<^verbatim>\<open>complete[type] = true\<close> and \<open>Opened g\<close>
  is \<^verbatim>\<open>cb()\<close> of lines 347 and 348 in the activation \<open>g\<close> of \<^verbatim>\<open>injectDeps\<close>.  And
  what the container hands to its continuation: \<open>Handed component v\<close>.
\<close>

datatype event =
    Requested nat "string list"
  | LoaderCalled "string list"
  | Called nat "jsval list"
  | ReturnedThis
  | Threw string
  | MethodCalled jsval string jsval
  | Assigned jsval string jsval
  | Counted addr
  | Applied addr "jsval list"
  | Signalled addr injtype
  | Opened addr
  | Handed "addr option" jsval

subsection \<open>The state of a running container\<close>

text \<open>
  \<open>frames\<close> holds the local variables of each activation of \<^verbatim>\<open>createInstances\<close>
  (\<^verbatim>\<open>instances\<close>, \<^verbatim>\<open>count\<close> and the callback), \<open>gates\<close> the object \<^verbatim>\<open>complete\<close> and the
  callback of each activation of \<^verbatim>\<open>injectDeps\<close>; an activation is known by its
  position in the list.  \<open>pending\<close> are the loader's calls that have not completed.
  \<open>singletons\<close> and \<open>heap\<close> belong to the container: the cached singletons, and for
  each instance it has constructed the component object, the creator and the
  arguments.
\<close>

record frame =
  f_ids :: "string list"
  f_instances :: "jsval list"
  f_count :: int
  f_cb :: cont

record gate =
  c_prop :: bool
  c_setter :: bool
  g_cb :: cont

record made =
  made_of :: addr
  made_by :: jsval
  made_with :: "jsval list"

record world = ioc +
  singletons :: "string \<rightharpoonup> jsval"
  heap :: "addr \<rightharpoonup> made"
  frames :: "frame list"
  gates :: "gate list"
  control :: "call list"
  pending :: "(string list \<times> cont) list"
  trace :: "event list"

text \<open>
  What lies outside the repository: the value that the module loader delivers for
  a module name, and the names of the function-valued members of the objects that
  a creator constructs.
\<close>

record outside =
  moduleValue :: "string \<Rightarrow> jsval"
  methodsOf :: "jsval \<Rightarrow> string list"

definition emit :: "event \<Rightarrow> world \<Rightarrow> world" where
  "emit e s = s\<lparr>trace := trace s @ [e]\<rparr>"

definition push :: "call list \<Rightarrow> world \<Rightarrow> world" where
  "push cs s = s\<lparr>control := cs @ control s\<rparr>"

text \<open>\<^verbatim>\<open>arguments[i]\<close>\<close>

definition argument :: "jsval list \<Rightarrow> nat \<Rightarrow> jsval" where
  "argument vs i = (if i < length vs then vs ! i else Undefined)"

text \<open>The key that a value becomes in \<^verbatim>\<open>this.components[type]\<close>.\<close>

fun toKey :: "jsval \<Rightarrow> string" where
  "toKey (Str k) = k"
| "toKey Undefined = ''undefined''"
| "toKey Null = ''null''"
| "toKey (Bool b) = (if b then ''true'' else ''false'')"
| "toKey _ = ''[object Object]''"

text \<open>\<^verbatim>\<open>ids instanceof Array ? ids : [ids]\<close>\<close>

fun normalize :: "idsArg \<Rightarrow> string list" where
  "normalize (IdArray ks) = ks"
| "normalize (IdValue v) = [toKey v]"

text \<open>
  A module map is an object; the list stands for the object that holds, for each
  key, the first entry of that key.
\<close>

definition moduleNames :: "modmap \<Rightarrow> string list" where
  "moduleNames mm = remdups (map fst mm)"

subsection \<open>\<^verbatim>\<open>loadComponentModules\<close> (lines 278 to 295)\<close>

definition loadComponentModules :: "modmap \<Rightarrow> cont \<Rightarrow> world \<Rightarrow> world" where
  "loadComponentModules moduleMaps cb s =
     push [CallLoader (moduleNames moduleMaps) (Loaded moduleMaps (moduleNames moduleMaps) cb)] s"

text \<open>
  The inner loop of the loader's callback, \<^verbatim>\<open>for (j = components.length - 1; ...)\<close>,
  on the components still to visit, last one first.
\<close>

fun bindCreators :: "addr list \<Rightarrow> jsval \<Rightarrow> world \<Rightarrow> (unit, world) res" where
  "bindCreators [] m s = Returned () s"
| "bindCreators (a # as) m s =
     (case objects s a of
        None \<Rightarrow> Thrown ''TypeError'' s
      | Some component \<Rightarrow>
          if isFunction (creator component) then bindCreators as m s
          else (case createCreator component m of
                  Inl e \<Rightarrow> Thrown e s
                | Inr c' \<Rightarrow> bindCreators as m (s\<lparr>objects := (objects s)(a \<mapsto> c')\<rparr>)))"

text \<open>
  The outer loop, \<^verbatim>\<open>for (i = arguments.length - 1; i > -1; --i)\<close>, for the indices
  below \<open>n\<close>.
\<close>

fun bindModules :: "modmap \<Rightarrow> string list \<Rightarrow> jsval list \<Rightarrow> nat \<Rightarrow> world \<Rightarrow> (unit, world) res" where
  "bindModules moduleMaps modules vs 0 s = Returned () s"
| "bindModules moduleMaps modules vs (Suc i) s =
     (if i < length modules
      then (case map_of moduleMaps (modules ! i) of
              None \<Rightarrow> Thrown ''TypeError'' s
            | Some cs \<Rightarrow>
                (case bindCreators (rev cs) (argument vs i) s of
                   Thrown e s1 \<Rightarrow> Thrown e s1
                 | Returned u s1 \<Rightarrow> bindModules moduleMaps modules vs i s1))
      else Thrown ''TypeError'' s)"

definition loaded :: "modmap \<Rightarrow> string list \<Rightarrow> cont \<Rightarrow> jsval list \<Rightarrow> world \<Rightarrow> (unit, world) res" where
  "loaded moduleMaps modules cb vs s =
     (case bindModules moduleMaps modules vs (length vs) s of
        Thrown e s1 \<Rightarrow> Thrown e s1
      | Returned u s1 \<Rightarrow> Returned () (push [Invoke cb []] s1))"

subsection \<open>\<^verbatim>\<open>IoC.prototype.getComponent\<close> (lines 143 to 162)\<close>

text \<open>The loop over the ids, first one first.\<close>

fun neededModules :: "world parser \<Rightarrow> string list \<Rightarrow> modmap \<Rightarrow> world \<Rightarrow> modmap \<times> world" where
  "neededModules P [] needModules s = (needModules, s)"
| "neededModules P (type # rest) needModules s =
     (case components s type of
        None \<Rightarrow>
          neededModules P rest needModules
            (warn (''`'' @ type @ ''` has not been added to the Ioc'') s)
      | Some a \<Rightarrow>
          neededModules P rest
            (getDependentModules P s a needModules
               (case objects s a of None \<Rightarrow> None | Some component \<Rightarrow> argDeps component))
            s)"

text \<open>
  The body up to the call of the loader.  What is left of the function afterwards
  is \<^verbatim>\<open>return this\<close>; only a caller outside the container uses the value (see
  \<open>request\<close> below).
\<close>

definition getComponent :: "world parser \<Rightarrow> idsArg \<Rightarrow> cont \<Rightarrow> world \<Rightarrow> world" where
  "getComponent P ids cb s =
     (let (needModules, s1) = neededModules P (normalize ids) [] s
      in loadComponentModules needModules (CreateInstances (normalize ids) cb) s1)"

subsection \<open>\<^verbatim>\<open>setProperty\<close> (lines 380 to 383)\<close>

definition toUpperCase :: "char \<Rightarrow> char" where
  "toUpperCase c =
     (if (97 :: nat) \<le> of_char c \<and> of_char c \<le> (122 :: nat)
      then char_of (of_char c - (32 :: nat)) else c)"

definition setterName :: "string \<Rightarrow> string" where
  "setterName key = ''set'' @ (case key of [] \<Rightarrow> [] | c # cs \<Rightarrow> toUpperCase c # cs)"

text \<open>
  The members of a value that are functions: those of its creator's objects for an
  instance that the container constructed, those of the value itself otherwise.
\<close>

definition methodNames :: "outside \<Rightarrow> world \<Rightarrow> jsval \<Rightarrow> string list" where
  "methodNames E s v =
     (case v of
        Inst a \<Rightarrow> (case heap s a of None \<Rightarrow> [] | Some m \<Rightarrow> methodsOf E (made_by m))
      | _ \<Rightarrow> methodsOf E v)"

text \<open>
  The setter is code of the caller and the field belongs to the caller's object, so
  both effects are recorded as events.  Reading a member of \<^verbatim>\<open>undefined\<close> or
  \<^verbatim>\<open>null\<close> throws.
\<close>

definition setProperty :: "outside \<Rightarrow> jsval \<Rightarrow> string \<Rightarrow> jsval \<Rightarrow> world \<Rightarrow> (unit, world) res" where
  "setProperty E inst key v s =
     (if inst = Undefined \<or> inst = Null then Thrown ''TypeError'' s
      else if setterName key \<in> set (methodNames E s inst)
      then Returned () (emit (MethodCalled inst (setterName key) v) s)
      else Returned () (emit (Assigned inst key v) s))"

subsection \<open>Substituting resolved references\<close>

text \<open>
  A dependency object that is handed on as a value keeps its \<^verbatim>\<open>$\<close> keys and its
  \<^verbatim>\<open>id\<close>; the fields of a configuration in it are not looked at again.
\<close>

fun valueOf :: "depval \<Rightarrow> jsval" where
  "valueOf (Lit v) = v"
| "valueOf (Cfg i r d c) =
     Record ((case i of None \<Rightarrow> [] | Some x \<Rightarrow> [(''$import'', Str x)]) @
             (case r of None \<Rightarrow> [] | Some x \<Rightarrow> [(''$ref'', Str x)]) @
             (case d of None \<Rightarrow> [] | Some x \<Rightarrow> [(''id'', Str x)]))"

text \<open>
  Modelled from the spec: \<^verbatim>\<open>u.indexOf\<close> of the missing \<^verbatim>\<open>util\<close> module, the position
  of the first occurrence.  \<open>None\<close> is \<open>-1\<close>, and \<^verbatim>\<open>arguments[-1]\<close> is \<^verbatim>\<open>undefined\<close>.
\<close>

fun indexOf :: "string list \<Rightarrow> string \<Rightarrow> nat option" where
  "indexOf [] k = None"
| "indexOf (x # xs) k = (if x = k then Some 0 else map_option Suc (indexOf xs k))"

text \<open>
  \<^verbatim>\<open>if (u.hasReference(value)) { value = arguments[u.indexOf(deps, value.$ref)]; }\<close>.
  Searching in \<^verbatim>\<open>null\<close> (dependency lists that were never computed) throws.
\<close>

definition substitute :: "string list option \<Rightarrow> jsval list \<Rightarrow> depval \<Rightarrow> string + jsval" where
  "substitute deps vs v =
     (case v of
        Cfg i (Some r) d c \<Rightarrow>
          (case deps of
             None \<Rightarrow> Inl ''TypeError''
           | Some ds \<Rightarrow>
               Inr (case indexOf ds r of None \<Rightarrow> Undefined | Some n \<Rightarrow> argument vs n))
      | _ \<Rightarrow> Inr (valueOf v))"

subsection \<open>The container\<close>

text \<open>
  Modelled from the spec: \<^verbatim>\<open>Container.prototype.createInstance\<close> of the missing
  \<^verbatim>\<open>Container\<close> module (section 4.5).  Static scope: the continuation receives the
  creator itself.  Singleton scope: a cached instance is handed over at once.
  Otherwise the \<^verbatim>\<open>$ref\<close> entries among the arguments are requested through
  \<^verbatim>\<open>getComponent\<close>, the creator is invoked on the substituted arguments, a
  singleton is cached, and the continuation receives the instance.  For an id
  that is not registered the continuation receives \<^verbatim>\<open>undefined\<close> (sections 4.4
  and 7: the slot stays \<^verbatim>\<open>undefined\<close>).  What the creator does is the caller's
  code; each invocation yields an object of its own.
\<close>

definition depIds :: "string list option \<Rightarrow> idsArg" where
  "depIds deps = (case deps of None \<Rightarrow> IdValue Null | Some ds \<Rightarrow> IdArray ds)"

definition createInstance :: "addr option \<Rightarrow> cont \<Rightarrow> world \<Rightarrow> (unit, world) res" where
  "createInstance component cb s =
     (case component of
        None \<Rightarrow> Returned () (push [Invoke cb [Undefined]] (emit (Handed None Undefined) s))
      | Some a \<Rightarrow>
          (case objects s a of
             None \<Rightarrow> Thrown ''TypeError'' s
           | Some c \<Rightarrow>
               if scope c = ''static''
               then Returned () (push [Invoke cb [creator c]] (emit (Handed (Some a) (creator c)) s))
               else (case (if scope c = ''singleton'' then singletons s (id_of c) else None) of
                       Some v \<Rightarrow> Returned () (push [Invoke cb [v]] (emit (Handed (Some a) v) s))
                     | None \<Rightarrow>
                         Returned () (push [CallGetComponent (depIds (argDeps c)) (Construct a cb)] s))))"

fun substituteAll :: "string list option \<Rightarrow> jsval list \<Rightarrow> depval list \<Rightarrow> string + jsval list" where
  "substituteAll deps vs [] = Inr []"
| "substituteAll deps vs (x # xs) =
     (case substitute deps vs x of
        Inl e \<Rightarrow> Inl e
      | Inr v \<Rightarrow> (case substituteAll deps vs xs of Inl e \<Rightarrow> Inl e | Inr ws \<Rightarrow> Inr (v # ws)))"

definition construct :: "addr \<Rightarrow> cont \<Rightarrow> jsval list \<Rightarrow> world \<Rightarrow> (unit, world) res" where
  "construct a cb vs s =
     (case objects s a of
        None \<Rightarrow> Thrown ''TypeError'' s
      | Some c \<Rightarrow>
          (case arrays s (args c) of
             None \<Rightarrow> Thrown ''TypeError'' s
           | Some xs \<Rightarrow>
               (case substituteAll (argDeps c) vs xs of
                  Inl e \<Rightarrow> Thrown e s
                | Inr ws \<Rightarrow>
                    if \<not> isFunction (creator c) then Thrown ''TypeError'' s
                    else (let p = fresh s;
                              s1 = s\<lparr>heap := (heap s)(p \<mapsto> \<lparr>made_of = a, made_by = creator c,
                                                              made_with = ws\<rparr>),
                                     fresh := Suc p\<rparr>;
                              s2 = (if scope c = ''singleton''
                                    then s1\<lparr>singletons := (singletons s1)(id_of c \<mapsto> Inst p)\<rparr>
                                    else s1)
                          in Returned ()
                               (push [Invoke cb [Inst p]] (emit (Handed (Some a) (Inst p)) s2))))))"

subsection \<open>\<^verbatim>\<open>createInstances\<close> (lines 297 to 339)\<close>

definition createInstances :: "string list \<Rightarrow> cont \<Rightarrow> world \<Rightarrow> world" where
  "createInstances ids cb s =
     (if length ids = 0 then push [Invoke cb []] s
      else push [LoopCreateInstances (length (frames s)) (length ids)]
             (s\<lparr>frames := frames s @
                   [\<lparr>f_ids = ids, f_instances = replicate (length ids) Undefined,
                     f_count = int (length ids), f_cb = cb\<rparr>]\<rparr>))"

text \<open>
  One round of \<^verbatim>\<open>for (i = ids.length - 1; i > -1; --i)\<close>, with \<open>n\<close> rounds left: the
  call of the container, and the rest of the loop after it.
\<close>

definition createInstances_loop :: "addr \<Rightarrow> nat \<Rightarrow> world \<Rightarrow> (unit, world) res" where
  "createInstances_loop f n s =
     (case n of
        0 \<Rightarrow> Returned () s
      | Suc i \<Rightarrow>
          if f < length (frames s) \<and> i < length (f_ids (frames s ! f))
          then (let component = components s (f_ids (frames s ! f) ! i)
                in Returned ()
                     (push [CallCreateInstance component (Task f i component),
                            LoopCreateInstances f i] s))
          else Thrown ''TypeError'' s)"

text \<open>The closure \<^verbatim>\<open>done\<close>.\<close>

definition done_f :: "addr \<Rightarrow> world \<Rightarrow> (unit, world) res" where
  "done_f f s =
     (if f < length (frames s)
      then (let fr = frames s ! f;
                fr' = fr\<lparr>f_count := f_count fr - 1\<rparr>;
                s1 = emit (Counted f) (s\<lparr>frames := (frames s)[f := fr']\<rparr>)
            in Returned ()
                 (if f_count fr' = 0
                  then push [Invoke (f_cb fr') (f_instances fr')]
                         (emit (Applied f (f_instances fr')) s1)
                  else s1))
      else Thrown ''TypeError'' s)"

text \<open>
  The closure that \<^verbatim>\<open>task(index, component)\<close> returns.  A component object is
  always in the store; where the model finds none it stops with the state as it
  was.
\<close>

definition task :: "world parser \<Rightarrow> addr \<Rightarrow> nat \<Rightarrow> addr option \<Rightarrow> jsval list \<Rightarrow> world \<Rightarrow> (unit, world) res" where
  "task P f index component vs s =
     (if f < length (frames s)
      then (let inst = argument vs 0;
                fr = frames s ! f;
                s1 = s\<lparr>frames := (frames s)[f := fr\<lparr>f_instances := (f_instances fr)[index := inst]\<rparr>]\<rparr>
            in case component of
                 None \<Rightarrow> Returned () (push [Invoke (Done f) []] s1)
               | Some a \<Rightarrow>
                   (case objects s1 a of
                      None \<Rightarrow> Thrown ''TypeError'' s
                    | Some c \<Rightarrow>
                        (let needModules = getDependentModules P s1 a [] (propDeps c)
                         in if setterDeps c = None \<and> auto c
                            then (let sd = getDepsFromSetters P s1 inst
                                             (case propmaps s1 (properties c) of
                                                None \<Rightarrow> [] | Some ps \<Rightarrow> ps);
                                      s2 = updateObject a (\<lambda>c. c\<lparr>setterDeps := Some sd\<rparr>) s1
                                  in Returned ()
                                       (loadComponentModules
                                          (getDependentModules P s2 a needModules (Some sd))
                                          (InjectDeps inst a (Done f)) s2))
                            else Returned ()
                                   (loadComponentModules needModules
                                      (InjectDeps inst a (Done f)) s1))))
      else Thrown ''TypeError'' s)"

subsection \<open>\<^verbatim>\<open>injectDeps\<close> (lines 341 to 352)\<close>

definition injectDeps :: "jsval \<Rightarrow> addr \<Rightarrow> cont \<Rightarrow> world \<Rightarrow> world" where
  "injectDeps inst component cb s =
     push [CallInjectProp inst component (Injected (length (gates s)) Prop),
           CallInjectSetter inst component (Injected (length (gates s)) Setter)]
       (s\<lparr>gates := gates s @ [\<lparr>c_prop = False, c_setter = False, g_cb = cb\<rparr>]\<rparr>)"

definition injected :: "addr \<Rightarrow> injtype \<Rightarrow> world \<Rightarrow> (unit, world) res" where
  "injected g type s =
     (if g < length (gates s)
      then (let complete = (case type of
                              Prop \<Rightarrow> (gates s ! g)\<lparr>c_prop := True\<rparr>
                            | Setter \<Rightarrow> (gates s ! g)\<lparr>c_setter := True\<rparr>);
                s1 = emit (Signalled g type) (s\<lparr>gates := (gates s)[g := complete]\<rparr>)
            in Returned ()
                 (if c_prop complete \<and> c_setter complete
                  then push [Invoke (g_cb complete) []] (emit (Opened g) s1) else s1))
      else Thrown ''TypeError'' s)"

subsection \<open>\<^verbatim>\<open>injectSetterDependencies\<close> (lines 354 to 363)\<close>

definition injectSetterDependencies ::
  "world parser \<Rightarrow> jsval \<Rightarrow> addr \<Rightarrow> cont \<Rightarrow> world \<Rightarrow> (unit, world) res" where
  "injectSetterDependencies P inst component cb s =
     (case objects s component of
        None \<Rightarrow> Thrown ''TypeError'' s
      | Some c \<Rightarrow>
          (let deps = (case setterDeps c of None \<Rightarrow> [] | Some ds \<Rightarrow> ds)
           in Returned () (getComponent P (IdArray deps) (SetterCallback inst deps cb) s)))"

text \<open>The loop \<^verbatim>\<open>for (i = deps.length - 1; i > -1; --i)\<close> for the indices below \<open>n\<close>.\<close>

fun setterCallback_loop ::
  "outside \<Rightarrow> jsval \<Rightarrow> string list \<Rightarrow> jsval list \<Rightarrow> nat \<Rightarrow> world \<Rightarrow> (unit, world) res" where
  "setterCallback_loop E inst deps vs 0 s = Returned () s"
| "setterCallback_loop E inst deps vs (Suc i) s =
     (case setProperty E inst (deps ! i) (argument vs i) s of
        Thrown e s1 \<Rightarrow> Thrown e s1
      | Returned u s1 \<Rightarrow> setterCallback_loop E inst deps vs i s1)"

definition setterCallback ::
  "outside \<Rightarrow> jsval \<Rightarrow> string list \<Rightarrow> cont \<Rightarrow> jsval list \<Rightarrow> world \<Rightarrow> (unit, world) res" where
  "setterCallback E inst deps cb vs s =
     (case setterCallback_loop E inst deps vs (length deps) s of
        Thrown e s1 \<Rightarrow> Thrown e s1
      | Returned u s1 \<Rightarrow> Returned () (push [Invoke cb []] s1))"

subsection \<open>\<^verbatim>\<open>injectPropDependencies\<close> (lines 365 to 378)\<close>

definition injectPropDependencies ::
  "world parser \<Rightarrow> jsval \<Rightarrow> addr \<Rightarrow> cont \<Rightarrow> world \<Rightarrow> (unit, world) res" where
  "injectPropDependencies P inst component cb s =
     (case objects s component of
        None \<Rightarrow> Thrown ''TypeError'' s
      | Some c \<Rightarrow>
          Returned ()
            (getComponent P (depIds (propDeps c))
               (PropCallback inst (properties c) (propDeps c) cb) s))"

text \<open>The loop \<^verbatim>\<open>for (var k in props)\<close> on the entries still to visit.\<close>

fun propCallback_loop ::
  "outside \<Rightarrow> jsval \<Rightarrow> string list option \<Rightarrow> jsval list \<Rightarrow> (string \<times> depval) list \<Rightarrow> world \<Rightarrow>
   (unit, world) res" where
  "propCallback_loop E inst deps vs [] s = Returned () s"
| "propCallback_loop E inst deps vs ((k, v) # rest) s =
     (case substitute deps vs v of
        Inl e \<Rightarrow> Thrown e s
      | Inr w \<Rightarrow>
          (case setProperty E inst k w s of
             Thrown e s1 \<Rightarrow> Thrown e s1
           | Returned u s1 \<Rightarrow> propCallback_loop E inst deps vs rest s1))"

definition propCallback ::
  "outside \<Rightarrow> jsval \<Rightarrow> addr \<Rightarrow> string list option \<Rightarrow> cont \<Rightarrow> jsval list \<Rightarrow> world \<Rightarrow>
   (unit, world) res" where
  "propCallback E inst props deps cb vs s =
     (case propCallback_loop E inst deps vs
             (case propmaps s props of None \<Rightarrow> [] | Some ps \<Rightarrow> ps) s of
        Thrown e s1 \<Rightarrow> Thrown e s1
      | Returned u s1 \<Rightarrow> Returned () (push [Invoke cb []] s1))"

subsection \<open>Running the calls\<close>

text \<open>Calling a closure.\<close>

fun invoke :: "world parser \<Rightarrow> outside \<Rightarrow> cont \<Rightarrow> jsval list \<Rightarrow> world \<Rightarrow> (unit, world) res" where
  "invoke P E (UserCallback t) vs s = Returned () (emit (Called t vs) s)"
| "invoke P E (CreateInstances ids cb) vs s = Returned () (createInstances ids cb s)"
| "invoke P E (Loaded moduleMaps modules cb) vs s = loaded moduleMaps modules cb vs s"
| "invoke P E (Task f index component) vs s = task P f index component vs s"
| "invoke P E (Done f) vs s = done_f f s"
| "invoke P E (InjectDeps inst component cb) vs s = Returned () (injectDeps inst component cb s)"
| "invoke P E (Injected g type) vs s = injected g type s"
| "invoke P E (SetterCallback inst deps cb) vs s = setterCallback E inst deps cb vs s"
| "invoke P E (PropCallback inst props deps cb) vs s = propCallback E inst props deps cb vs s"
| "invoke P E (Construct a cb) vs s = construct a cb vs s"

text \<open>
  One call that is not a call of the loader.  \<open>ReturnThis\<close> is the statement
  \<^verbatim>\<open>return this\<close> of a \<^verbatim>\<open>getComponent\<close> that was called from outside.
\<close>

fun perform :: "world parser \<Rightarrow> outside \<Rightarrow> call \<Rightarrow> world \<Rightarrow> (unit, world) res" where
  "perform P E (Invoke k vs) s = invoke P E k vs s"
| "perform P E (CallGetComponent ids cb) s = Returned () (getComponent P ids cb s)"
| "perform P E (CallLoader modules cb) s = Returned () s"
| "perform P E (CallCreateInstance component cb) s = createInstance component cb s"
| "perform P E (LoopCreateInstances f n) s = createInstances_loop f n s"
| "perform P E (CallInjectProp inst component cb) s = injectPropDependencies P inst component cb s"
| "perform P E (CallInjectSetter inst component cb) s = injectSetterDependencies P inst component cb s"
| "perform P E ReturnThis s = Returned () (emit ReturnedThis s)"

text \<open>
  The module loader is outside the repository.  Called with the names and a
  callback, it either calls the callback before it returns (\<open>Sync\<close>) or keeps it
  for later (\<open>Defer\<close>); a kept callback is called, with the values of the modules
  in the order of the names, at some moment when no call is running
  (\<open>Complete j\<close> for the \<open>j\<close>-th pending one).  An exception ends the turn: the calls
  that were still to be made are dropped.
\<close>

datatype choice = Sync | Defer | Complete nat

definition settle :: "(unit, world) res \<Rightarrow> world" where
  "settle r = (case r of
                 Returned u s \<Rightarrow> s
               | Thrown e s \<Rightarrow> emit (Threw e) (s\<lparr>control := []\<rparr>))"

definition step :: "world parser \<Rightarrow> outside \<Rightarrow> choice \<Rightarrow> world \<Rightarrow> world option" where
  "step P E ch s =
     (case control s of
        [] \<Rightarrow>
          (case ch of
             Complete j \<Rightarrow>
               if j < length (pending s)
               then Some (s\<lparr>pending := take j (pending s) @ drop (Suc j) (pending s),
                            control := [Invoke (snd (pending s ! j))
                                          (map (moduleValue E) (fst (pending s ! j)))]\<rparr>)
               else None
           | _ \<Rightarrow> None)
      | CallLoader modules cb # rest \<Rightarrow>
          (case ch of
             Sync \<Rightarrow>
               Some (emit (LoaderCalled modules)
                       (s\<lparr>control := Invoke cb (map (moduleValue E) modules) # rest\<rparr>))
           | Defer \<Rightarrow>
               Some (emit (LoaderCalled modules)
                       (s\<lparr>control := rest, pending := pending s @ [(modules, cb)]\<rparr>))
           | Complete j \<Rightarrow> None)
      | c # rest \<Rightarrow> Some (settle (perform P E c (s\<lparr>control := rest\<rparr>))))"

fun run :: "world parser \<Rightarrow> outside \<Rightarrow> choice list \<Rightarrow> world \<Rightarrow> world option" where
  "run P E [] s = Some s"
| "run P E (ch # chs) s = (case step P E ch s of None \<Rightarrow> None | Some s1 \<Rightarrow> run P E chs s1)"

text \<open>
  A call of \<^verbatim>\<open>getComponent\<close> from outside, made while no call is running, with the
  caller's callback \<open>t\<close>.
\<close>

definition request :: "idsArg \<Rightarrow> nat \<Rightarrow> world \<Rightarrow> world" where
  "request ids t s =
     emit (Requested t (normalize ids))
       (s\<lparr>control := [CallGetComponent ids (UserCallback t), ReturnThis]\<rparr>)"

text \<open>
  A session: steps of the run, and calls of \<^verbatim>\<open>getComponent\<close> from outside, each with
  a callback of its own.
\<close>

fun isRequested :: "nat \<Rightarrow> event \<Rightarrow> bool" where
  "isRequested t (Requested t' ids) = (t' = t)"
| "isRequested t _ = False"

datatype action = Step choice | Request idsArg nat

fun act :: "world parser \<Rightarrow> outside \<Rightarrow> action \<Rightarrow> world \<Rightarrow> world option" where
  "act P E (Step ch) s = step P E ch s"
| "act P E (Request ids t) s =
     (if control s = [] \<and> filter (isRequested t) (trace s) = []
      then Some (request ids t s) else None)"

fun play :: "world parser \<Rightarrow> outside \<Rightarrow> action list \<Rightarrow> world \<Rightarrow> world option" where
  "play P E [] s = Some s"
| "play P E (a # as) s = (case act P E a s of None \<Rightarrow> None | Some s1 \<Rightarrow> play P E as s1)"

text \<open>A container in which nothing is running, on top of a registry.\<close>

definition idle :: "ioc \<Rightarrow> world" where
  "idle r = ioc.extend r (world.fields Map.empty Map.empty [] [] [] [] [])"

subsection \<open>The default parser\<close>

text \<open>
  Modelled from the spec: \<^verbatim>\<open>getDependentModules\<close> of the missing
  \<^verbatim>\<open>DependencyParser\<close> (section 4.1).  For each dependency id the component
  definition is looked up; if its creator is not yet a callable, the name of its
  module becomes a key of the module map and the component is appended to that
  module's pending list.
\<close>

definition addPending :: "string \<Rightarrow> addr \<Rightarrow> modmap \<Rightarrow> modmap" where
  "addPending m a mm =
     (case map_of mm m of
        None \<Rightarrow> mm @ [(m, [a])]
      | Some as \<Rightarrow> map (\<lambda>(k, v). if k = m then (k, v @ [a]) else (k, v)) mm)"

fun specDependentModules_loop :: "world \<Rightarrow> string list \<Rightarrow> modmap \<Rightarrow> modmap" where
  "specDependentModules_loop s [] mm = mm"
| "specDependentModules_loop s (k # ks) mm =
     specDependentModules_loop s ks
       (case componentAt s k of
          None \<Rightarrow> mm
        | Some c \<Rightarrow>
            (case (isFunction (creator c), module_of c, components s k) of
               (False, Str m, Some a) \<Rightarrow> addPending m a mm
             | _ \<Rightarrow> mm))"

definition specDependentModules :: "world \<Rightarrow> addr \<Rightarrow> modmap \<Rightarrow> string list option \<Rightarrow> modmap" where
  "specDependentModules s component mm deps =
     specDependentModules_loop s (case deps of None \<Rightarrow> [] | Some ds \<Rightarrow> ds) mm"

text \<open>
  Modelled from the spec: \<^verbatim>\<open>getDepsFromSetters\<close> of the missing
  \<^verbatim>\<open>DependencyParser\<close> (section 4.4): the properties that are not declared in
  \<^verbatim>\<open>properties\<close> but for which the instance has a method \<^verbatim>\<open>set\<close> + the capitalised
  name.
\<close>

definition toLowerCase :: "char \<Rightarrow> char" where
  "toLowerCase c =
     (if (65 :: nat) \<le> of_char c \<and> of_char c \<le> (90 :: nat)
      then char_of (of_char c + (32 :: nat)) else c)"

definition propertyOfSetter :: "string \<Rightarrow> string option" where
  "propertyOfSetter m =
     (if take 3 m = ''set'' \<and> drop 3 m \<noteq> []
      then Some (toLowerCase (hd (drop 3 m)) # tl (drop 3 m)) else None)"

definition specDepsFromSetters ::
  "outside \<Rightarrow> world \<Rightarrow> jsval \<Rightarrow> (string \<times> depval) list \<Rightarrow> string list" where
  "specDepsFromSetters E s inst props =
     concat (map (\<lambda>m. case propertyOfSetter m of
                        None \<Rightarrow> []
                      | Some k \<Rightarrow> if k \<in> set (map fst props) then [] else [k])
                 (methodNames E s inst))"

definition specParser :: "outside \<Rightarrow> world parser" where
  "specParser E = \<lparr> getDepsFromArgs = specDepsFromArgs,
                     getDepsFromProperties = specDepsFromProperties,
                     getDepsFromSetters = specDepsFromSetters E,
                     getDependentModules = specDependentModules \<rparr>"

text \<open>An outside in which every module is an empty object and no object has methods.\<close>

definition plainOutside :: outside where
  "plainOutside = \<lparr> moduleValue = (\<lambda>m. Record []), methodsOf = (\<lambda>v. []) \<rparr>"

section \<open>What a run can do, seen from the meeting points\<close>

text \<open>
  For the properties of the callbacks only part of the state matters: the
  registered ids, the calls to make, the pending loader calls, the activations
  and the log.
\<close>

type_synonym view =
  "(string \<rightharpoonup> addr) \<times> call list \<times> (string list \<times> cont) list \<times> frame list \<times> gate list \<times> event list"

definition view :: "world \<Rightarrow> view" where
  "view s = (components s, control s, pending s, frames s, gates s, trace s)"

fun isPropertyEvent :: "event \<Rightarrow> bool" where
  "isPropertyEvent (MethodCalled v k w) = True"
| "isPropertyEvent (Assigned v k w) = True"
| "isPropertyEvent _ = False"

definition storeInstance :: "addr \<Rightarrow> nat \<Rightarrow> jsval \<Rightarrow> frame list \<Rightarrow> frame list" where
  "storeInstance f i v fs = fs[f := (fs ! f)\<lparr>f_instances := (f_instances (fs ! f))[i := v]\<rparr>]"

definition countDown :: "addr \<Rightarrow> frame list \<Rightarrow> frame list" where
  "countDown f fs = fs[f := (fs ! f)\<lparr>f_count := f_count (fs ! f) - 1\<rparr>]"

fun signal :: "injtype \<Rightarrow> gate \<Rightarrow> gate" where
  "signal Prop c = c\<lparr>c_prop := True\<rparr>"
| "signal Setter c = c\<lparr>c_setter := True\<rparr>"

text \<open>Every step of a run is one of these moves.\<close>

inductive moves :: "view \<Rightarrow> view \<Rightarrow> bool" where
  m_sync:
    "moves (cm, CallLoader ms k # rest, pd, fs, gs, tr)
           (cm, Invoke k vs # rest, pd, fs, gs, tr @ [LoaderCalled ms])"
| m_defer:
    "moves (cm, CallLoader ms k # rest, pd, fs, gs, tr)
           (cm, rest, pd @ [(ms, k)], fs, gs, tr @ [LoaderCalled ms])"
| m_complete:
    "j < length pd \<Longrightarrow>
     moves (cm, [], pd, fs, gs, tr)
           (cm, [Invoke (snd (pd ! j)) vs], take j pd @ drop (Suc j) pd, fs, gs, tr)"
| m_thrown:
    "\<forall>x \<in> set evs. isPropertyEvent x \<Longrightarrow> \<forall>t vs. c \<noteq> Invoke (UserCallback t) vs \<Longrightarrow>
     moves (cm, c # rest, pd, fs, gs, tr)
           (cm, [], pd, fs, gs, tr @ evs @ [Threw e])"
| m_get:
    "moves (cm, CallGetComponent ids k # rest, pd, fs, gs, tr)
           (cm, CallLoader ms (Loaded mm ms (CreateInstances (normalize ids) k)) # rest,
            pd, fs, gs, tr)"
| m_injectProp:
    "moves (cm, CallInjectProp v a k # rest, pd, fs, gs, tr)
           (cm, CallLoader ms (Loaded mm ms (CreateInstances ids (PropCallback v p deps k))) # rest,
            pd, fs, gs, tr)"
| m_injectSetter:
    "moves (cm, CallInjectSetter v a k # rest, pd, fs, gs, tr)
           (cm, CallLoader ms (Loaded mm ms (CreateInstances ids (SetterCallback v deps k))) # rest,
            pd, fs, gs, tr)"
| m_hand:
    "(c = None \<longrightarrow> v = Undefined) \<Longrightarrow>
     moves (cm, CallCreateInstance c k # rest, pd, fs, gs, tr)
           (cm, Invoke k [v] # rest, pd, fs, gs, tr @ [Handed c v])"
| m_resolve:
    "moves (cm, CallCreateInstance (Some a) k # rest, pd, fs, gs, tr)
           (cm, CallGetComponent ids (Construct a k) # rest, pd, fs, gs, tr)"
| m_loop:
    "f < length fs \<Longrightarrow> i < length (f_ids (fs ! f)) \<Longrightarrow> c = cm (f_ids (fs ! f) ! i) \<Longrightarrow>
     moves (cm, LoopCreateInstances f (Suc i) # rest, pd, fs, gs, tr)
           (cm, CallCreateInstance c (Task f i c) # LoopCreateInstances f i # rest, pd, fs, gs, tr)"
| m_loopEnd:
    "moves (cm, LoopCreateInstances f 0 # rest, pd, fs, gs, tr) (cm, rest, pd, fs, gs, tr)"
| m_return:
    "moves (cm, ReturnThis # rest, pd, fs, gs, tr) (cm, rest, pd, fs, gs, tr @ [ReturnedThis])"
| m_user:
    "moves (cm, Invoke (UserCallback t) vs # rest, pd, fs, gs, tr)
           (cm, rest, pd, fs, gs, tr @ [Called t vs])"
| m_noIds:
    "moves (cm, Invoke (CreateInstances [] k) vs # rest, pd, fs, gs, tr)
           (cm, Invoke k [] # rest, pd, fs, gs, tr)"
| m_frame:
    "ids \<noteq> [] \<Longrightarrow>
     moves (cm, Invoke (CreateInstances ids k) vs # rest, pd, fs, gs, tr)
           (cm, LoopCreateInstances (length fs) (length ids) # rest, pd,
            fs @ [\<lparr>f_ids = ids, f_instances = replicate (length ids) Undefined,
                   f_count = int (length ids), f_cb = k\<rparr>], gs, tr)"
| m_loaded:
    "moves (cm, Invoke (Loaded mm ms k) vs # rest, pd, fs, gs, tr)
           (cm, Invoke k [] # rest, pd, fs, gs, tr)"
| m_taskNone:
    "f < length fs \<Longrightarrow>
     moves (cm, Invoke (Task f i None) vs # rest, pd, fs, gs, tr)
           (cm, Invoke (Done f) [] # rest, pd, storeInstance f i (argument vs 0) fs, gs, tr)"
| m_taskSome:
    "f < length fs \<Longrightarrow>
     moves (cm, Invoke (Task f i (Some a)) vs # rest, pd, fs, gs, tr)
           (cm, CallLoader ms (Loaded mm ms (InjectDeps (argument vs 0) a (Done f))) # rest, pd,
            storeInstance f i (argument vs 0) fs, gs, tr)"
| m_count:
    "f < length fs \<Longrightarrow> f_count (fs ! f) \<noteq> 1 \<Longrightarrow>
     moves (cm, Invoke (Done f) vs # rest, pd, fs, gs, tr)
           (cm, rest, pd, countDown f fs, gs, tr @ [Counted f])"
| m_apply:
    "f < length fs \<Longrightarrow> f_count (fs ! f) = 1 \<Longrightarrow>
     moves (cm, Invoke (Done f) vs # rest, pd, fs, gs, tr)
           (cm, Invoke (f_cb (fs ! f)) (f_instances (fs ! f)) # rest, pd, countDown f fs, gs,
            tr @ [Counted f, Applied f (f_instances (fs ! f))])"
| m_gate:
    "moves (cm, Invoke (InjectDeps v a k) vs # rest, pd, fs, gs, tr)
           (cm, CallInjectProp v a (Injected (length gs) Prop) #
                CallInjectSetter v a (Injected (length gs) Setter) # rest,
            pd, fs, gs @ [\<lparr>c_prop = False, c_setter = False, g_cb = k\<rparr>], tr)"
| m_signal:
    "g < length gs \<Longrightarrow> \<not> (c_prop (signal ty (gs ! g)) \<and> c_setter (signal ty (gs ! g))) \<Longrightarrow>
     moves (cm, Invoke (Injected g ty) vs # rest, pd, fs, gs, tr)
           (cm, rest, pd, fs, gs[g := signal ty (gs ! g)], tr @ [Signalled g ty])"
| m_open:
    "g < length gs \<Longrightarrow> c_prop (signal ty (gs ! g)) \<and> c_setter (signal ty (gs ! g)) \<Longrightarrow>
     moves (cm, Invoke (Injected g ty) vs # rest, pd, fs, gs, tr)
           (cm, Invoke (g_cb (gs ! g)) [] # rest, pd, fs, gs[g := signal ty (gs ! g)],
            tr @ [Signalled g ty, Opened g])"
| m_injected:
    "\<forall>x \<in> set evs. isPropertyEvent x \<Longrightarrow>
     k = SetterCallback v ds cb \<or> k = PropCallback v p deps cb \<Longrightarrow>
     moves (cm, Invoke k vs # rest, pd, fs, gs, tr)
           (cm, Invoke cb [] # rest, pd, fs, gs, tr @ evs)"
| m_construct:
    "moves (cm, Invoke (Construct a k) vs # rest, pd, fs, gs, tr)
           (cm, Invoke k [v] # rest, pd, fs, gs, tr @ [Handed (Some a) v])"

text \<open>The state that a call leaves, whether it returned or threw.\<close>

definition resState :: "(unit, world) res \<Rightarrow> world" where
  "resState r = (case r of Returned u s \<Rightarrow> s | Thrown e s \<Rightarrow> s)"


subsection \<open>Who may still call whom\<close>

text \<open>
  A closure that is still reachable may still be called.  \<open>TaskTok f i\<close> stands for
  \<^verbatim>\<open>task(i, component)\<close> of the activation \<open>f\<close> (or for the round of the loop that
  will create it), \<open>DoneTok f\<close> for its \<^verbatim>\<open>done\<close>, \<open>GateTok g type\<close> for
  \<^verbatim>\<open>u.bind(injected, null, type)\<close> of the activation \<open>g\<close>, \<open>UserTok t\<close> for a callback
  of the caller.  \<open>kt X k\<close> counts those with property \<open>X\<close> that the closure \<open>k\<close>
  holds; an activation that has let its callback through holds it no longer.
\<close>

datatype token = TaskTok addr nat | DoneTok addr | GateTok addr injtype | UserTok nat

fun kt :: "(token \<Rightarrow> bool) \<Rightarrow> cont \<Rightarrow> nat" where
  "kt X (UserCallback t) = (if X (UserTok t) then 1 else 0)"
| "kt X (CreateInstances ids k) = kt X k"
| "kt X (Loaded mm ms k) = kt X k"
| "kt X (Task f i c) = (if X (TaskTok f i) then 1 else 0)"
| "kt X (Done f) = (if X (DoneTok f) then 1 else 0)"
| "kt X (InjectDeps v a k) = kt X k"
| "kt X (Injected g ty) = (if X (GateTok g ty) then 1 else 0)"
| "kt X (SetterCallback v ds k) = kt X k"
| "kt X (PropCallback v p deps k) = kt X k"
| "kt X (Construct a k) = kt X k"

fun ct :: "(token \<Rightarrow> bool) \<Rightarrow> call \<Rightarrow> nat" where
  "ct X (Invoke k vs) = kt X k"
| "ct X (CallGetComponent ids k) = kt X k"
| "ct X (CallLoader ms k) = kt X k"
| "ct X (CallCreateInstance c k) = kt X k"
| "ct X (LoopCreateInstances f n) = length (filter (\<lambda>i. X (TaskTok f i)) [0..<n])"
| "ct X (CallInjectProp v a k) = kt X k"
| "ct X (CallInjectSetter v a k) = kt X k"
| "ct X ReturnThis = 0"

definition ft :: "(token \<Rightarrow> bool) \<Rightarrow> frame \<Rightarrow> nat" where
  "ft X fr = (if 0 < f_count fr then kt X (f_cb fr) else 0)"

definition gt :: "(token \<Rightarrow> bool) \<Rightarrow> gate \<Rightarrow> nat" where
  "gt X c = (if c_prop c \<and> c_setter c then 0 else kt X (g_cb c))"

definition weigh ::
  "(token \<Rightarrow> bool) \<Rightarrow> call list \<Rightarrow> (string list \<times> cont) list \<Rightarrow> frame list \<Rightarrow> gate list \<Rightarrow> nat" where
  "weigh X ctl pd fs gs =
     sum_list (map (ct X) ctl) + sum_list (map (\<lambda>p. kt X (snd p)) pd) +
     sum_list (map (ft X) fs) + sum_list (map (gt X) gs)"

fun ofFrame :: "addr \<Rightarrow> token \<Rightarrow> bool" where
  "ofFrame f (TaskTok f' i) = (f' = f)"
| "ofFrame f (DoneTok f') = (f' = f)"
| "ofFrame f _ = False"

fun flag :: "injtype \<Rightarrow> gate \<Rightarrow> bool" where
  "flag Prop c = c_prop c"
| "flag Setter c = c_setter c"

text \<open>How often an event with property \<open>Q\<close> is in the log.\<close>

definition tally :: "(event \<Rightarrow> bool) \<Rightarrow> event list \<Rightarrow> nat" where
  "tally Q tr = length (filter Q tr)"

fun isCalled :: "nat \<Rightarrow> event \<Rightarrow> bool" where
  "isCalled t (Called t' vs) = (t' = t)"
| "isCalled t _ = False"

fun isApplied :: "addr \<Rightarrow> event \<Rightarrow> bool" where
  "isApplied f (Applied f' vs) = (f' = f)"
| "isApplied f _ = False"

text \<open>
  The accounts that every state of a run keeps: an activation of
  \<^verbatim>\<open>createInstances\<close> can be counted down at most as often as its \<^verbatim>\<open>count\<close> says,
  each flag of an activation of \<^verbatim>\<open>injectDeps\<close> can be signalled once while it is
  unset, a callback of the caller can be called once; and the log agrees with the
  counters.
\<close>

definition capF :: "frame list \<Rightarrow> addr \<Rightarrow> nat" where
  "capF fs f = (if f < length fs then nat (f_count (fs ! f)) else 0)"

definition capG :: "gate list \<Rightarrow> addr \<Rightarrow> injtype \<Rightarrow> nat" where
  "capG gs g ty = (if g < length gs \<and> \<not> flag ty (gs ! g) then 1 else 0)"

fun accF :: "view \<Rightarrow> bool" where
  "accF (cm, ctl, pd, fs, gs, tr) = (\<forall>f. weigh (ofFrame f) ctl pd fs gs \<le> capF fs f)"

fun accG :: "view \<Rightarrow> bool" where
  "accG (cm, ctl, pd, fs, gs, tr) =
     (\<forall>g ty. weigh (\<lambda>x. x = GateTok g ty) ctl pd fs gs \<le> capG gs g ty)"

fun accU :: "view \<Rightarrow> bool" where
  "accU (cm, ctl, pd, fs, gs, tr) =
     (\<forall>t. weigh (\<lambda>x. x = UserTok t) ctl pd fs gs + tally (isCalled t) tr
            \<le> tally (isRequested t) tr \<and>
          tally (isRequested t) tr \<le> 1)"

fun accC :: "view \<Rightarrow> bool" where
  "accC (cm, ctl, pd, fs, gs, tr) =
     (\<forall>f. if f < length fs
          then 0 \<le> f_count (fs ! f) \<and>
               int (tally (\<lambda>e. e = Counted f) tr) + f_count (fs ! f) = int (length (f_ids (fs ! f))) \<and>
               tally (isApplied f) tr = (if f_count (fs ! f) = 0 then 1 else 0)
          else tally (\<lambda>e. e = Counted f) tr = 0 \<and> tally (isApplied f) tr = 0)"

fun accS :: "view \<Rightarrow> bool" where
  "accS (cm, ctl, pd, fs, gs, tr) =
     ((\<forall>g ty. tally (\<lambda>e. e = Signalled g ty) tr =
            (if g < length gs \<and> flag ty (gs ! g) then 1 else 0)) \<and>
      (\<forall>g. tally (\<lambda>e. e = Opened g) tr =
            (if g < length gs \<and> c_prop (gs ! g) \<and> c_setter (gs ! g) then 1 else 0)))"

definition accounts :: "view \<Rightarrow> bool" where
  "accounts V = (accF V \<and> accG V \<and> accU V \<and> accC V \<and> accS V)"

subsection \<open>Which closure is handed to whom\<close>

text \<open>
  The source passes each kind of closure to one kind of receiver only: a caller's
  callback, \<open>Construct\<close> and the two injection callbacks are given to
  \<^verbatim>\<open>getComponent\<close>; \<open>Loaded\<close> is given to the loader; a \<open>Task\<close> is given to the
  container, together with the component it was made for; \<^verbatim>\<open>done\<close> is given to
  \<^verbatim>\<open>injectDeps\<close>, and \<open>Injected\<close> to the two injections.  \<open>fits\<close> says that a closure
  is built that way, in a state with the registered ids \<open>cm\<close>, the activations
  \<open>fs\<close> and the log \<open>tr\<close>.
\<close>

fun asker :: "cont \<Rightarrow> bool" where
  "asker (UserCallback t) = True"
| "asker (Construct a k) = True"
| "asker (SetterCallback v ds k) = True"
| "asker (PropCallback v p deps k) = True"
| "asker _ = False"

fun isLoaded :: "cont \<Rightarrow> bool" where
  "isLoaded (Loaded mm ms k) = True"
| "isLoaded _ = False"

fun isDone :: "cont \<Rightarrow> bool" where
  "isDone (Done f) = True"
| "isDone _ = False"

fun isInjected :: "cont \<Rightarrow> bool" where
  "isInjected (Injected g ty) = True"
| "isInjected _ = False"

fun isTaskFor :: "addr option \<Rightarrow> cont \<Rightarrow> bool" where
  "isTaskFor c (Task f i c') = (c' = c)"
| "isTaskFor c _ = False"

fun fits :: "(string \<rightharpoonup> addr) \<Rightarrow> frame list \<Rightarrow> event list \<Rightarrow> cont \<Rightarrow> bool" where
  "fits cm fs tr (UserCallback t) = True"
| "fits cm fs tr (CreateInstances ids k) =
     (asker k \<and> fits cm fs tr k \<and>
      (case k of UserCallback t \<Rightarrow> Requested t ids \<in> set tr | _ \<Rightarrow> True))"
| "fits cm fs tr (Loaded mm ms k) =
     (fits cm fs tr k \<and>
      (case k of CreateInstances ids k' \<Rightarrow> True | InjectDeps v a k' \<Rightarrow> True | _ \<Rightarrow> False))"
| "fits cm fs tr (Task f i c) =
     (f < length fs \<and> i < length (f_ids (fs ! f)) \<and> c = cm (f_ids (fs ! f) ! i))"
| "fits cm fs tr (Done f) = True"
| "fits cm fs tr (InjectDeps v a k) = isDone k"
| "fits cm fs tr (Injected g ty) = True"
| "fits cm fs tr (SetterCallback v ds k) = isInjected k"
| "fits cm fs tr (PropCallback v p deps k) = isInjected k"
| "fits cm fs tr (Construct a k) = (isTaskFor (Some a) k \<and> fits cm fs tr k)"

text \<open>
  A caller's callback \<open>t\<close> may be called with \<open>vs\<close>: it was requested with no ids and
  \<open>vs\<close> is empty, or \<open>vs\<close> is what an activation for its ids has applied it to.
\<close>

definition delivered :: "frame list \<Rightarrow> event list \<Rightarrow> nat \<Rightarrow> jsval list \<Rightarrow> bool" where
  "delivered fs tr t vs =
     (\<exists>ids. Requested t ids \<in> set tr \<and>
        ((ids = [] \<and> vs = []) \<or>
         (\<exists>f < length fs. f_cb (fs ! f) = UserCallback t \<and> f_ids (fs ! f) = ids \<and>
                          Applied f vs \<in> set tr)))"

fun fitsCall :: "(string \<rightharpoonup> addr) \<Rightarrow> frame list \<Rightarrow> event list \<Rightarrow> call \<Rightarrow> bool" where
  "fitsCall cm fs tr (Invoke k vs) =
     (fits cm fs tr k \<and>
      (case k of
         Task f i c \<Rightarrow> Handed c (argument vs 0) \<in> set tr
       | UserCallback t \<Rightarrow> delivered fs tr t vs
       | _ \<Rightarrow> True))"
| "fitsCall cm fs tr (CallGetComponent ids k) =
     (asker k \<and> fits cm fs tr k \<and>
      (case k of UserCallback t \<Rightarrow> Requested t (normalize ids) \<in> set tr | _ \<Rightarrow> True))"
| "fitsCall cm fs tr (CallLoader ms k) = (isLoaded k \<and> fits cm fs tr k)"
| "fitsCall cm fs tr (CallCreateInstance c k) = (isTaskFor c k \<and> fits cm fs tr k)"
| "fitsCall cm fs tr (LoopCreateInstances f n) = (f < length fs \<and> n \<le> length (f_ids (fs ! f)))"
| "fitsCall cm fs tr (CallInjectProp v a k) = isInjected k"
| "fitsCall cm fs tr (CallInjectSetter v a k) = isInjected k"
| "fitsCall cm fs tr ReturnThis = True"

definition fitsFrame :: "(string \<rightharpoonup> addr) \<Rightarrow> frame list \<Rightarrow> event list \<Rightarrow> frame \<Rightarrow> bool" where
  "fitsFrame cm fs tr fr =
     (asker (f_cb fr) \<and> fits cm fs tr (f_cb fr) \<and> length (f_instances fr) = length (f_ids fr) \<and>
      (case f_cb fr of UserCallback t \<Rightarrow> Requested t (f_ids fr) \<in> set tr | _ \<Rightarrow> True))"

fun shape :: "view \<Rightarrow> bool" where
  "shape (cm, ctl, pd, fs, gs, tr) =
     ((\<forall>c \<in> set ctl. fitsCall cm fs tr c) \<and>
      (\<forall>p \<in> set pd. isLoaded (snd p) \<and> fits cm fs tr (snd p)) \<and>
      (\<forall>f < length fs. fitsFrame cm fs tr (fs ! f)) \<and>
      (\<forall>g \<in> set gs. isDone (g_cb g)) \<and>
      (\<forall>t vs. Called t vs \<in> set tr \<longrightarrow> delivered fs tr t vs) \<and>
      (\<forall>v. Handed None v \<in> set tr \<longrightarrow> v = Undefined))"

text \<open>
  The slots of \<^verbatim>\<open>instances\<close>: in an activation none of whose closures was lost,
  every slot either still waits for its \<open>Task\<close> or holds what the container handed
  over for the component of its id; and what an activation has applied its
  callback to is of that kind in every position.
\<close>

fun slots :: "view \<Rightarrow> bool" where
  "slots (cm, ctl, pd, fs, gs, tr) =
     ((\<forall>f < length fs.
         0 < f_count (fs ! f) \<and> int (weigh (ofFrame f) ctl pd fs gs) = f_count (fs ! f) \<longrightarrow>
         (\<forall>i < length (f_ids (fs ! f)).
            0 < weigh (\<lambda>x. x = TaskTok f i) ctl pd fs gs \<or>
            Handed (cm (f_ids (fs ! f) ! i)) (f_instances (fs ! f) ! i) \<in> set tr)) \<and>
      (\<forall>f vs. Applied f vs \<in> set tr \<longrightarrow>
         f < length fs \<and> length vs = length (f_ids (fs ! f)) \<and>
         (\<forall>i < length vs. Handed (cm (f_ids (fs ! f) ! i)) (vs ! i) \<in> set tr)))"

text \<open>Frames are added and their slots and counters change; ids and callbacks stay.\<close>

definition keeps :: "frame list \<Rightarrow> frame list \<Rightarrow> bool" where
  "keeps fs fs' =
     (length fs \<le> length fs' \<and>
      (\<forall>f < length fs. f_ids (fs' ! f) = f_ids (fs ! f) \<and> f_cb (fs' ! f) = f_cb (fs ! f) \<and>
                       length (f_instances (fs' ! f)) = length (f_instances (fs ! f))))"

subsection \<open>The order of the log\<close>

text \<open>
  What must be in the log before an event may follow: an activation of
  \<^verbatim>\<open>createInstances\<close> applies its callback after one countdown for each of the
  values, an activation of \<^verbatim>\<open>injectDeps\<close> lets its callback through after both
  signals, and a caller's callback receives nothing when it asked for no ids, or
  what an activation for its ids has applied before.
\<close>

fun allowedAfter :: "frame list \<Rightarrow> event list \<Rightarrow> event \<Rightarrow> bool" where
  "allowedAfter fs pre (Applied f vs) = (tally (\<lambda>e. e = Counted f) pre = length vs)"
| "allowedAfter fs pre (Opened g) = (Signalled g Prop \<in> set pre \<and> Signalled g Setter \<in> set pre)"
| "allowedAfter fs pre (Called t vs) = delivered fs pre t vs"
| "allowedAfter fs pre _ = True"

definition inOrder :: "frame list \<Rightarrow> event list \<Rightarrow> bool" where
  "inOrder fs tr = (\<forall>pre e post. tr = pre @ e # post \<longrightarrow> allowedAfter fs pre e)"

text \<open>
  An activation for a caller's callback that has counted down to zero has called
  it, or calls it next.
\<close>

fun due :: "view \<Rightarrow> bool" where
  "due (cm, ctl, pd, fs, gs, tr) =
     (\<forall>f < length fs. \<forall>t. f_cb (fs ! f) = UserCallback t \<and> f_count (fs ! f) = 0 \<longrightarrow>
        (\<exists>vs. Called t vs \<in> set tr) \<or> (\<exists>vs rest. ctl = Invoke (UserCallback t) vs # rest))"

text \<open>
  Every call of \<^verbatim>\<open>getComponent\<close> from outside has returned, or its \<^verbatim>\<open>return this\<close> is
  still to come, unless an exception has ended a turn.
\<close>

fun isRequest :: "event \<Rightarrow> bool" where
  "isRequest (Requested t ids) = True"
| "isRequest _ = False"

fun isThrew :: "event \<Rightarrow> bool" where
  "isThrew (Threw e) = True"
| "isThrew _ = False"

fun returns :: "view \<Rightarrow> bool" where
  "returns (cm, ctl, pd, fs, gs, tr) =
     (length (filter (\<lambda>c. c = ReturnThis) ctl) \<le> 1 \<and>
      tally (\<lambda>e. e = ReturnedThis) tr + length (filter (\<lambda>c. c = ReturnThis) ctl) \<le> tally isRequest tr \<and>
      tally isRequest tr \<le>
        tally (\<lambda>e. e = ReturnedThis) tr + length (filter (\<lambda>c. c = ReturnThis) ctl) + tally isThrew tr)"

fun ordered :: "view \<Rightarrow> bool" where
  "ordered (cm, ctl, pd, fs, gs, tr) = inOrder fs tr"

definition sound :: "view \<Rightarrow> bool" where
  "sound V = (accounts V \<and> shape V \<and> slots V \<and> ordered V \<and> due V \<and> returns V)"

section \<open>A container to try things on\<close>

text \<open>The registry that a call of \<^verbatim>\<open>addComponent\<close> on an empty container leaves.\<close>

definition registry :: "(unit, world) res option \<Rightarrow> ioc" where
  "registry r = (case r of Some (Returned u s) \<Rightarrow> ioc.truncate s | _ \<Rightarrow> emptyIoC)"

text \<open>
  Two components with constructors of the caller: \<^verbatim>\<open>a\<close> with the default scope and the
  singleton \<^verbatim>\<open>b\<close>.
\<close>

definition twoComponents :: ioc where
  "twoComponents =
     registry (addComponent 1 (specParser plainOutside) (idle emptyIoC)
       (ByMap [(''a'', Config None None None (Some (Extern ''A'')) None None None),
               (''b'', Config None None (Some ''singleton'') (Some (Extern ''B'')) None None None)]))"

text \<open>
  A call of \<^verbatim>\<open>getComponent\<close> with the callback \<open>0\<close>, and \<open>n\<close> steps with a loader that
  calls back before it returns.
\<close>

definition syncSession :: "string list \<Rightarrow> nat \<Rightarrow> world option" where
  "syncSession ids n =
     play (specParser plainOutside) plainOutside
       (Request (IdArray ids) 0 # replicate n (Step Sync)) (idle twoComponents)"

section \<open>Properties of registration\<close>

text \<open>
  C1.  Registering an id that is already registered should change nothing and warn.
  The guard of \<^verbatim>\<open>addComponent\<close> reads \<^verbatim>\<open>this.components[id]\<close> with the object of
  configurations where the key \<open>k\<close> is meant, so it does not see the earlier
  registration: after \<^verbatim>\<open>addComponent('a', {creator: 'First'})\<close> and
  \<^verbatim>\<open>addComponent('a', {creator: 'Second'})\<close> the id \<open>a\<close> holds the second definition,
  and nothing was warned.
\<close>

theorem addComponent_again_replaces:
  "\<exists>s1 s2.
     addComponent 1 P emptyIoC (ById ''a'' (creatorOnly ''First'')) = Some (Returned () s1) \<and>
     map_option creator (componentAt s1 ''a'') = Some (Str ''First'') \<and>
     addComponent 1 P s1 (ById ''a'' (creatorOnly ''Second'')) = Some (Returned () s2) \<and>
     map_option creator (componentAt s2 ''a'') = Some (Str ''Second'') \<and>
     warnings s2 = []"
  by (simp add: addComponent_body_def createComponent_def creatorOnly_def emptyIoC_def
      alloc_array_def alloc_props_def alloc_object_def objectKey_def getComponentConfig_def
      transferAnonymousComponents_def updateObject_def componentAt_def orElse_def)

section \<open>Properties of retrieval\<close>

subsection \<open>A request for no ids\<close>

text \<open>
  C2, as the claim states it: with an empty list of ids the module loader is never
  called.  It is: \<^verbatim>\<open>getComponent\<close> always goes through \<^verbatim>\<open>loadComponentModules\<close>,
  which calls the loader with the names it has collected, here none.
\<close>

theorem getComponent_no_ids_calls_loader:
  "map_option trace
     (run (specParser plainOutside) plainOutside [Sync, Sync, Sync, Sync, Sync, Sync]
        (request (IdArray []) 0 (idle emptyIoC)))
   = Some [Requested 0 [], LoaderCalled [], Called 0 [], ReturnedThis]"
  by (simp add: request_def idle_def emptyIoC_def step_def getComponent_def
      loadComponentModules_def push_def moduleNames_def settle_def emit_def loaded_def
      createInstances_def ioc.extend_def world.fields_def)

text \<open>
  C2, amended.  A request for an empty list of ids calls the module loader exactly
  once, with an empty list of names; when the loader calls back, at once or later,
  the callback is called once, with no arguments.  Nothing else happens: no
  warning, no instance, and the state is the one before the request but for the
  log.
\<close>

theorem getComponent_no_ids:
  "run P E [c1, Sync, c3, c4, c5, c6] (request (IdArray []) t s)
     = Some (s\<lparr>control := [],
              trace := trace s @ [Requested t [], LoaderCalled [], Called t [], ReturnedThis]\<rparr>) \<and>
   run P E [c1, Defer, c3] (request (IdArray []) t s)
     = Some (s\<lparr>control := [],
              pending := pending s @ [([], Loaded [] [] (CreateInstances [] (UserCallback t)))],
              trace := trace s @ [Requested t [], LoaderCalled [], ReturnedThis]\<rparr>) \<and>
   run P E [c1, Defer, c3, Complete (length (pending s)), c5, c6, c7]
       (request (IdArray []) t s)
     = Some (s\<lparr>control := [],
              trace := trace s @ [Requested t [], LoaderCalled [], ReturnedThis, Called t []]\<rparr>)"
  by (simp add: request_def step_def getComponent_def loadComponentModules_def
      push_def moduleNames_def settle_def emit_def loaded_def createInstances_def)

section \<open>Every step is a move\<close>

lemma view_simps [simp]:
  "view (emit e s) = (components s, control s, pending s, frames s, gates s, trace s @ [e])"
  "view (push cs s) = (components s, cs @ control s, pending s, frames s, gates s, trace s)"
  "view (warn m s) = view s"
  "view (updateObject a f s) = view s"
  "view (s\<lparr>objects := ob\<rparr>) = view s"
  by (simp_all add: view_def emit_def push_def warn_def updateObject_def split: option.splits)

lemma neededModules_view: "neededModules P ks mm s = (mm', s') \<Longrightarrow> view s' = view s"
  by (induction ks arbitrary: mm s) (auto split: option.splits)

lemma getComponent_view:
  "\<exists>ms mm. view (getComponent P ids k s) =
     (components s, CallLoader ms (Loaded mm ms (CreateInstances (normalize ids) k)) # control s,
      pending s, frames s, gates s, trace s)"
proof -
  obtain mm s1 where n: "neededModules P (normalize ids) [] s = (mm, s1)" by fastforce
  from neededModules_view[OF n] show ?thesis
    by (auto simp: getComponent_def n loadComponentModules_def view_def push_def)
qed

lemma bindCreators_view: "view (resState (bindCreators as m s)) = view s"
  by (induction as arbitrary: s) (auto simp: resState_def split: option.splits sum.splits)

lemma bindModules_view: "view (resState (bindModules mm ms vs n s)) = view s"
proof (induction n arbitrary: s)
  case 0 then show ?case by (simp add: resState_def)
next
  case (Suc n)
  show ?case
  proof (cases "n < length ms")
    case False then show ?thesis by (simp add: resState_def)
  next
    case True
    show ?thesis
    proof (cases "map_of mm (ms ! n)")
      case None then show ?thesis using True by (simp add: resState_def)
    next
      case (Some cs)
      show ?thesis
      proof (cases "bindCreators (rev cs) (argument vs n) s")
        case (Returned u s1)
        with bindCreators_view[of "rev cs" "argument vs n" s] Suc[of s1] True Some
        show ?thesis by (simp add: resState_def)
      next
        case (Thrown e s1)
        with bindCreators_view[of "rev cs" "argument vs n" s] True Some
        show ?thesis by (simp add: resState_def)
      qed
    qed
  qed
qed

lemma setProperty_view:
  "\<exists>evs. (\<forall>x \<in> set evs. isPropertyEvent x) \<and>
     view (resState (setProperty E inst key v s)) =
       (components s, control s, pending s, frames s, gates s, trace s @ evs)"
proof (cases "inst = Undefined \<or> inst = Null")
  case True
  then have "view (resState (setProperty E inst key v s)) =
       (components s, control s, pending s, frames s, gates s, trace s @ [])"
    by (auto simp: setProperty_def resState_def view_def)
  then show ?thesis by (intro exI[of _ "[]"]) simp
next
  case False
  show ?thesis
  proof (cases "setterName key \<in> set (methodNames E s inst)")
    case True
    with False show ?thesis
      by (intro exI[of _ "[MethodCalled inst (setterName key) v]"])
         (simp add: setProperty_def resState_def)
  next
    case F2: False
    with False show ?thesis
      by (intro exI[of _ "[Assigned inst key v]"])
         (simp add: setProperty_def resState_def)
  qed
qed

lemma setterCallback_loop_view:
  "\<exists>evs. (\<forall>x \<in> set evs. isPropertyEvent x) \<and>
     view (resState (setterCallback_loop E inst deps vs n s)) =
       (components s, control s, pending s, frames s, gates s, trace s @ evs)"
proof (induction n arbitrary: s)
  case 0
  show ?case by (intro exI[of _ "[]"]) (simp add: resState_def view_def)
next
  case (Suc n)
  obtain evs where e: "\<forall>x \<in> set evs. isPropertyEvent x"
    "view (resState (setProperty E inst (deps ! n) (argument vs n) s)) =
       (components s, control s, pending s, frames s, gates s, trace s @ evs)"
    using setProperty_view by blast
  show ?case
  proof (cases "setProperty E inst (deps ! n) (argument vs n) s")
    case (Thrown e1 s1)
    with e show ?thesis by (intro exI[of _ evs]) (simp add: resState_def)
  next
    case (Returned u s1)
    obtain evs1 where e1: "\<forall>x \<in> set evs1. isPropertyEvent x"
      "view (resState (setterCallback_loop E inst deps vs n s1)) =
       (components s1, control s1, pending s1, frames s1, gates s1, trace s1 @ evs1)"
      using Suc by blast
    from e Returned have "view s1 = (components s, control s, pending s, frames s, gates s, trace s @ evs)"
      by (simp add: resState_def)
    with e e1 Returned show ?thesis
      by (intro exI[of _ "evs @ evs1"]) (auto simp: view_def)
  qed
qed

lemma propCallback_loop_view:
  "\<exists>evs. (\<forall>x \<in> set evs. isPropertyEvent x) \<and>
     view (resState (propCallback_loop E inst deps vs ps s)) =
       (components s, control s, pending s, frames s, gates s, trace s @ evs)"
proof (induction ps arbitrary: s)
  case Nil
  show ?case by (intro exI[of _ "[]"]) (simp add: resState_def view_def)
next
  case (Cons kv ps)
  obtain k v where kv: "kv = (k, v)" by (cases kv)
  show ?case
  proof (cases "substitute deps vs v")
    case (Inl e)
    then show ?thesis by (intro exI[of _ "[]"]) (simp add: kv resState_def view_def)
  next
    case (Inr w)
    obtain evs where e: "\<forall>x \<in> set evs. isPropertyEvent x"
      "view (resState (setProperty E inst k w s)) =
       (components s, control s, pending s, frames s, gates s, trace s @ evs)"
      using setProperty_view by blast
    show ?thesis
    proof (cases "setProperty E inst k w s")
      case (Thrown e1 s1)
      with e Inr show ?thesis by (intro exI[of _ evs]) (simp add: kv resState_def)
    next
      case (Returned u s1)
      obtain evs1 where e1: "\<forall>x \<in> set evs1. isPropertyEvent x"
        "view (resState (propCallback_loop E inst deps vs ps s1)) =
         (components s1, control s1, pending s1, frames s1, gates s1, trace s1 @ evs1)"
        using Cons by blast
      from e Returned have "view s1 = (components s, control s, pending s, frames s, gates s, trace s @ evs)"
        by (simp add: resState_def)
      with e e1 Returned Inr show ?thesis
        by (intro exI[of _ "evs @ evs1"]) (auto simp: kv view_def)
    qed
  qed
qed

lemma view_settle [simp]:
  "settle (Returned u s) = s"
  "view (settle (Thrown e s)) = (components s, [], pending s, frames s, gates s, trace s @ [Threw e])"
  by (simp_all add: settle_def view_def emit_def)

lemma thrown_here:
  "\<forall>t vs. c \<noteq> Invoke (UserCallback t) vs \<Longrightarrow>
   moves (components s, c # control s, pending s, frames s, gates s, trace s)
         (components s, [], pending s, frames s, gates s, trace s @ [Threw e])"
  using m_thrown[of "[]"] by simp

lemma invoke_user:
  "moves (components s, Invoke (UserCallback t) vs # control s, pending s, frames s, gates s, trace s)
     (view (settle (invoke P E (UserCallback t) vs s)))"
  by (simp add: m_user)

lemma invoke_createInstances:
  "moves (components s, Invoke (CreateInstances ids k) vs # control s, pending s, frames s, gates s, trace s)
     (view (settle (invoke P E (CreateInstances ids k) vs s)))"
proof (cases "ids = []")
  case True then show ?thesis by (simp add: createInstances_def m_noIds)
next
  case False
  then have "view (settle (invoke P E (CreateInstances ids k) vs s)) =
    (components s, LoopCreateInstances (length (frames s)) (length ids) # control s, pending s,
     frames s @ [\<lparr>f_ids = ids, f_instances = replicate (length ids) Undefined,
                   f_count = int (length ids), f_cb = k\<rparr>], gates s, trace s)"
    by (simp add: createInstances_def view_def push_def)
  with False show ?thesis by (simp add: m_frame)
qed

lemma invoke_loaded:
  "moves (components s, Invoke (Loaded mm ms k) vs # control s, pending s, frames s, gates s, trace s)
     (view (settle (invoke P E (Loaded mm ms k) vs s)))"
proof (cases "bindModules mm ms vs (length vs) s")
  case (Returned u s1)
  with bindModules_view[of mm ms vs "length vs" s]
  have "view s1 = view s" by (simp add: resState_def)
  then show ?thesis using Returned
    by (auto simp: loaded_def view_def push_def m_loaded)
next
  case (Thrown e s1)
  with bindModules_view[of mm ms vs "length vs" s]
  have "view s1 = view s" by (simp add: resState_def)
  then show ?thesis using Thrown thrown_here[where s=s and c="Invoke (Loaded mm ms k) vs" and e=e]
    by (auto simp: loaded_def view_def settle_def emit_def)
qed

lemma loadComponentModules_view:
  "view (loadComponentModules mm k s) =
     (components s, CallLoader (moduleNames mm) (Loaded mm (moduleNames mm) k) # control s,
      pending s, frames s, gates s, trace s)"
  by (simp add: loadComponentModules_def)

lemma view_frames_update:
  "view (s\<lparr>frames := fs\<rparr>) = (components s, control s, pending s, fs, gates s, trace s)"
  "view (s\<lparr>gates := gs\<rparr>) = (components s, control s, pending s, frames s, gs, trace s)"
  by (simp_all add: view_def)

lemma invoke_task:
  "moves (components s, Invoke (Task f i c) vs # control s, pending s, frames s, gates s, trace s)
     (view (settle (invoke P E (Task f i c) vs s)))"
proof (cases "f < length (frames s)")
  case False
  then show ?thesis using thrown_here[where s=s and c="Invoke (Task f i c) vs"]
    by (simp add: task_def)
next
  case True
  let ?s1 = "s\<lparr>frames := (frames s)[f := (frames s ! f)\<lparr>f_instances := (f_instances (frames s ! f))[i := argument vs 0]\<rparr>]\<rparr>"
  have v1: "view ?s1 = (components s, control s, pending s, storeInstance f i (argument vs 0) (frames s), gates s, trace s)"
    by (simp add: view_def storeInstance_def)
  show ?thesis
  proof (cases c)
    case None
    with True show ?thesis using m_taskNone[OF True, of "components s" i vs "control s" "pending s" "gates s" "trace s"]
      by (simp add: task_def Let_def view_def push_def storeInstance_def)
  next
    case (Some a)
    show ?thesis
    proof (cases "objects s a")
      case None
      with True Some show ?thesis using thrown_here[where s=s and c="Invoke (Task f i c) vs"]
        by (simp add: task_def Let_def)
    next
      case (Some comp)
      note ts = m_taskSome[OF True, unfolded storeInstance_def]
      from True \<open>c = Some a\<close> Some show ?thesis
        by (auto simp: task_def Let_def loadComponentModules_def push_def
            view_def storeInstance_def updateObject_def intro!: ts)
    qed
  qed
qed

lemma invoke_done:
  "moves (components s, Invoke (Done f) vs # control s, pending s, frames s, gates s, trace s)
     (view (settle (invoke P E (Done f) vs s)))"
proof (cases "f < length (frames s)")
  case False
  then show ?thesis using thrown_here[where s=s and c="Invoke (Done f) vs"]
    by (simp add: done_f_def)
next
  case True
  show ?thesis
  proof (cases "f_count (frames s ! f) = 1")
    case True
    note r = m_apply[OF \<open>f < length (frames s)\<close> True, unfolded countDown_def]
    from True \<open>f < length (frames s)\<close> r[of "components s" vs "control s" "pending s" "gates s" "trace s"]
    show ?thesis
      by (simp add: done_f_def Let_def view_def push_def emit_def)
  next
    case False
    note r = m_count[OF \<open>f < length (frames s)\<close> False, unfolded countDown_def]
    from False \<open>f < length (frames s)\<close> show ?thesis
      by (auto simp: done_f_def Let_def view_def push_def emit_def intro!: r)
  qed
qed

lemma invoke_injectDeps:
  "moves (components s, Invoke (InjectDeps v a k) vs # control s, pending s, frames s, gates s, trace s)
     (view (settle (invoke P E (InjectDeps v a k) vs s)))"
  by (auto simp: injectDeps_def view_def push_def intro!: m_gate)

lemma invoke_injected:
  "moves (components s, Invoke (Injected g ty) vs # control s, pending s, frames s, gates s, trace s)
     (view (settle (invoke P E (Injected g ty) vs s)))"
proof (cases "g < length (gates s)")
  case False
  then show ?thesis using thrown_here[where s=s and c="Invoke (Injected g ty) vs"]
    by (simp add: injected_def)
next
  case True
  have sg: "(case ty of Prop \<Rightarrow> (gates s ! g)\<lparr>c_prop := True\<rparr>
                      | Setter \<Rightarrow> (gates s ! g)\<lparr>c_setter := True\<rparr>) = signal ty (gates s ! g)"
    by (cases ty) simp_all
  show ?thesis
  proof (cases "c_prop (signal ty (gates s ! g)) \<and> c_setter (signal ty (gates s ! g))")
    case B: True
    have cb: "g_cb (signal ty (gates s ! g)) = g_cb (gates s ! g)" by (cases ty) simp_all
    from True B show ?thesis
      by (auto simp: injected_def sg Let_def view_def push_def emit_def cb intro!: m_open)
  next
    case B: False
    from True B show ?thesis
      by (auto simp: injected_def sg Let_def view_def push_def emit_def intro!: m_signal)
  qed
qed

lemma view_trace_ext:
  "view s1 = (cm, ctl, pd, fs, gs, tr) \<Longrightarrow>
   view (settle (Thrown e s1)) = (cm, [], pd, fs, gs, tr @ [Threw e])"
  "view s1 = (cm, ctl, pd, fs, gs, tr) \<Longrightarrow>
   view (push cs s1) = (cm, cs @ ctl, pd, fs, gs, tr)"
  by (auto simp: view_def settle_def emit_def push_def)

lemma invoke_setterCallback:
  "moves (components s, Invoke (SetterCallback v ds k) vs # control s, pending s, frames s, gates s, trace s)
     (view (settle (invoke P E (SetterCallback v ds k) vs s)))"
proof -
  obtain evs where e: "\<forall>x \<in> set evs. isPropertyEvent x"
     "view (resState (setterCallback_loop E v ds vs (length ds) s)) =
       (components s, control s, pending s, frames s, gates s, trace s @ evs)"
    using setterCallback_loop_view by blast
  show ?thesis
  proof (cases "setterCallback_loop E v ds vs (length ds) s")
    case (Returned u s1)
    with e have "view s1 = (components s, control s, pending s, frames s, gates s, trace s @ evs)"
      by (simp add: resState_def)
    from view_trace_ext(2)[OF this] Returned e(1) show ?thesis
      by (auto simp: setterCallback_def intro!: m_injected)
  next
    case (Thrown e1 s1)
    with e have "view s1 = (components s, control s, pending s, frames s, gates s, trace s @ evs)"
      by (simp add: resState_def)
    from view_trace_ext(1)[OF this] Thrown e(1) show ?thesis
      using m_thrown[of evs]
      by (auto simp: setterCallback_def)
  qed
qed

lemma invoke_propCallback:
  "moves (components s, Invoke (PropCallback v p deps k) vs # control s, pending s, frames s, gates s, trace s)
     (view (settle (invoke P E (PropCallback v p deps k) vs s)))"
proof -
  let ?ps = "case propmaps s p of None \<Rightarrow> [] | Some ps \<Rightarrow> ps"
  obtain evs where e: "\<forall>x \<in> set evs. isPropertyEvent x"
     "view (resState (propCallback_loop E v deps vs ?ps s)) =
       (components s, control s, pending s, frames s, gates s, trace s @ evs)"
    using propCallback_loop_view by blast
  show ?thesis
  proof (cases "propCallback_loop E v deps vs ?ps s")
    case (Returned u s1)
    with e have "view s1 = (components s, control s, pending s, frames s, gates s, trace s @ evs)"
      by (simp add: resState_def)
    from view_trace_ext(2)[OF this] Returned e(1) show ?thesis
      by (auto simp: propCallback_def intro!: m_injected)
  next
    case (Thrown e1 s1)
    with e have "view s1 = (components s, control s, pending s, frames s, gates s, trace s @ evs)"
      by (simp add: resState_def)
    from view_trace_ext(1)[OF this] Thrown e(1) show ?thesis
      using m_thrown[of evs]
      by (auto simp: propCallback_def)
  qed
qed

lemma invoke_construct:
  "moves (components s, Invoke (Construct a k) vs # control s, pending s, frames s, gates s, trace s)
     (view (settle (invoke P E (Construct a k) vs s)))"
  using thrown_here[where s=s and c="Invoke (Construct a k) vs"]
  by (auto simp: construct_def Let_def view_def push_def emit_def settle_def
      split: option.splits sum.splits intro!: m_construct)

lemma invoke_moves:
  "moves (components s, Invoke k vs # control s, pending s, frames s, gates s, trace s)
     (view (settle (invoke P E k vs s)))"
  by (cases k) (simp_all only: invoke_user invoke_createInstances invoke_loaded invoke_task
      invoke_done invoke_injectDeps invoke_injected invoke_setterCallback invoke_propCallback
      invoke_construct)

lemma perform_getComponent:
  "moves (components s, CallGetComponent ids k # control s, pending s, frames s, gates s, trace s)
     (view (settle (perform P E (CallGetComponent ids k) s)))"
proof -
  obtain ms mm where "view (getComponent P ids k s) =
     (components s, CallLoader ms (Loaded mm ms (CreateInstances (normalize ids) k)) # control s,
      pending s, frames s, gates s, trace s)"
    using getComponent_view by blast
  then show ?thesis by (simp add: m_get)
qed

lemma perform_createInstance:
  "moves (components s, CallCreateInstance c k # control s, pending s, frames s, gates s, trace s)
     (view (settle (perform P E (CallCreateInstance c k) s)))"
  using thrown_here[where s=s and c="CallCreateInstance c k"]
  by (auto simp: createInstance_def view_def push_def emit_def settle_def
      split: option.splits if_splits intro!: m_hand m_resolve)

lemma perform_loop:
  "moves (components s, LoopCreateInstances f n # control s, pending s, frames s, gates s, trace s)
     (view (settle (perform P E (LoopCreateInstances f n) s)))"
  using thrown_here[where s=s and c="LoopCreateInstances f n"]
  by (auto simp: createInstances_loop_def view_def push_def emit_def settle_def Let_def
      split: nat.splits intro!: m_loop m_loopEnd)

lemma perform_injectProp:
  "moves (components s, CallInjectProp v a k # control s, pending s, frames s, gates s, trace s)
     (view (settle (perform P E (CallInjectProp v a k) s)))"
proof (cases "objects s a")
  case None
  then show ?thesis using thrown_here[where s=s and c="CallInjectProp v a k"]
    by (simp add: injectPropDependencies_def)
next
  case (Some c)
  obtain ms mm where "view (getComponent P (depIds (propDeps c))
               (PropCallback v (properties c) (propDeps c) k) s) =
     (components s, CallLoader ms (Loaded mm ms (CreateInstances (normalize (depIds (propDeps c)))
        (PropCallback v (properties c) (propDeps c) k))) # control s,
      pending s, frames s, gates s, trace s)"
    using getComponent_view by blast
  with Some show ?thesis by (simp add: injectPropDependencies_def m_injectProp)
qed

lemma perform_injectSetter:
  "moves (components s, CallInjectSetter v a k # control s, pending s, frames s, gates s, trace s)
     (view (settle (perform P E (CallInjectSetter v a k) s)))"
proof (cases "objects s a")
  case None
  then show ?thesis using thrown_here[where s=s and c="CallInjectSetter v a k"]
    by (simp add: injectSetterDependencies_def)
next
  case (Some c)
  let ?deps = "case setterDeps c of None \<Rightarrow> [] | Some ds \<Rightarrow> ds"
  obtain ms mm where "view (getComponent P (IdArray ?deps) (SetterCallback v ?deps k) s) =
     (components s, CallLoader ms (Loaded mm ms (CreateInstances (normalize (IdArray ?deps))
        (SetterCallback v ?deps k))) # control s,
      pending s, frames s, gates s, trace s)"
    using getComponent_view by blast
  with Some show ?thesis by (simp add: injectSetterDependencies_def m_injectSetter Let_def)
qed

lemma perform_moves:
  assumes "\<forall>ms k. c \<noteq> CallLoader ms k"
  shows "moves (components s, c # control s, pending s, frames s, gates s, trace s)
     (view (settle (perform P E c s)))"
proof (cases c)
  case (Invoke k vs) then show ?thesis using invoke_moves[of s k vs P E] by simp
next
  case ReturnThis then show ?thesis by (simp add: m_return)
next
  case (CallLoader ms k) with assms show ?thesis by simp
qed (simp_all only: perform_getComponent perform_createInstance perform_loop
       perform_injectProp perform_injectSetter)

lemma step_moves: "step P E ch s = Some s' \<Longrightarrow> moves (view s) (view s')"
proof (cases "control s")
  case Nil
  assume st: "step P E ch s = Some s'"
  with Nil obtain j where j: "ch = Complete j" "j < length (pending s)"
    by (auto simp: step_def split: choice.splits if_splits)
  with Nil st show ?thesis
    by (auto simp: step_def view_def intro!: m_complete)
next
  case (Cons c rest)
  assume st: "step P E ch s = Some s'"
  show ?thesis
  proof (cases "\<exists>ms k. c = CallLoader ms k")
    case True
    then obtain ms k where c: "c = CallLoader ms k" by blast
    with Cons st show ?thesis
      by (auto simp: step_def view_def emit_def split: choice.splits intro!: m_sync m_defer)
  next
    case False
    with Cons st have s': "s' = settle (perform P E c (s\<lparr>control := rest\<rparr>))"
      by (auto simp: step_def split: call.splits)
    from False have "\<forall>ms k. c \<noteq> CallLoader ms k" by blast
    from perform_moves[OF this, of "s\<lparr>control := rest\<rparr>" P E] Cons s'
    show ?thesis by (simp add: view_def)
  qed
qed

section \<open>The accounts are kept\<close>

lemma sum_list_map_update:
  fixes g :: "'a \<Rightarrow> nat"
  shows "i < length xs \<Longrightarrow> sum_list (map g (xs[i := y])) + g (xs ! i) = sum_list (map g xs) + g y"
proof (induction xs arbitrary: i)
  case Nil then show ?case by simp
next
  case (Cons x xs) then show ?case by (cases i) auto
qed

lemma sum_list_map_remove:
  fixes g :: "'a \<Rightarrow> nat"
  shows "j < length xs \<Longrightarrow> sum_list (map g (take j xs @ drop (Suc j) xs)) + g (xs ! j) = sum_list (map g xs)"
proof -
  assume j: "j < length xs"
  have "sum_list (map g xs) = sum_list (map g (take j xs @ xs ! j # drop (Suc j) xs))"
    using id_take_nth_drop[OF j] by simp
  then show ?thesis by simp
qed

lemma weigh_ctl [simp]:
  "weigh X (c # ctl) pd fs gs = ct X c + weigh X ctl pd fs gs"
  by (simp add: weigh_def)

lemma weigh_pd [simp]:
  "weigh X ctl (pd @ [p]) fs gs = kt X (snd p) + weigh X ctl pd fs gs"
  by (simp add: weigh_def)

lemma weigh_fs [simp]:
  "weigh X ctl pd (fs @ [fr]) gs = ft X fr + weigh X ctl pd fs gs"
  by (simp add: weigh_def)

lemma weigh_gs [simp]:
  "weigh X ctl pd fs (gs @ [g]) = gt X g + weigh X ctl pd fs gs"
  by (simp add: weigh_def)

lemma weigh_store [simp]:
  "weigh X ctl pd (storeInstance f i v fs) gs = weigh X ctl pd fs gs"
proof (cases "f < length fs")
  case True
  then show ?thesis
  using sum_list_map_update[of f fs "ft X" "(fs ! f)\<lparr>f_instances := (f_instances (fs ! f))[i := v]\<rparr>"]
  by (auto simp: storeInstance_def weigh_def ft_def split: if_splits)
qed (simp add: storeInstance_def list_update_beyond)

lemma weigh_drop: "weigh X [] pd fs gs \<le> weigh X ctl pd fs gs"
  by (simp add: weigh_def)

lemma weigh_complete:
  "j < length pd \<Longrightarrow> weigh X [] (take j pd @ drop (Suc j) pd) fs gs + kt X (snd (pd ! j)) = weigh X [] pd fs gs"
  using sum_list_map_remove[of j pd "\<lambda>p. kt X (snd p)"] by (simp add: weigh_def)

lemma weigh_countDown:
  "f < length fs \<Longrightarrow>
   weigh X ctl pd (countDown f fs) gs + (if f_count (fs ! f) = 1 then kt X (f_cb (fs ! f)) else 0)
     = weigh X ctl pd fs gs"
  using sum_list_map_update[of f fs "ft X" "(fs ! f)\<lparr>f_count := f_count (fs ! f) - 1\<rparr>"]
  by (cases "f_count (fs ! f) = 1") (auto simp: countDown_def ft_def weigh_def split: if_splits)

lemma weigh_signal:
  "g < length gs \<Longrightarrow>
   weigh X ctl pd fs (gs[g := signal ty (gs ! g)]) +
     (if c_prop (signal ty (gs ! g)) \<and> c_setter (signal ty (gs ! g)) \<and> \<not> (c_prop (gs ! g) \<and> c_setter (gs ! g))
      then kt X (g_cb (gs ! g)) else 0)
   = weigh X ctl pd fs gs"
  using sum_list_map_update[of g gs "gt X" "signal ty (gs ! g)"]
  by (cases ty) (auto simp: gt_def weigh_def split: if_splits)

declare ct.simps(5) [simp del]

lemma ct_loop_Suc: "ct X (LoopCreateInstances f (Suc i)) = (if X (TaskTok f i) then 1 else 0) + ct X (LoopCreateInstances f i)"
  by (simp add: ct.simps(5))

lemma ct_loop_0 [simp]: "ct X (LoopCreateInstances f 0) = 0"
  by (simp add: ct.simps(5))

lemma ct_loop_frame [simp]: "ct (ofFrame f') (LoopCreateInstances f n) = (if f' = f then n else 0)"
  by (induction n) (auto simp: ct_loop_Suc)

lemma ct_loop_other [simp]:
  "ct (\<lambda>x. x = GateTok g ty) (LoopCreateInstances f n) = 0"
  "ct (\<lambda>x. x = UserTok t) (LoopCreateInstances f n) = 0"
  by (induction n) (auto simp: ct_loop_Suc)

lemma capF_simps [simp]:
  "capF (storeInstance f i v fs) f' = capF fs f'"
  "capF (fs @ [fr]) f' = (if f' = length fs then nat (f_count fr) else capF fs f')"
  "f < length fs \<Longrightarrow> capF (countDown f fs) f' = (if f' = f then capF fs f - 1 else capF fs f')"
  by (cases "f < length fs"; auto simp: capF_def storeInstance_def countDown_def nth_list_update nth_append list_update_beyond)+

lemma capG_simps [simp]:
  "capG (gs @ [c]) g ty = (if g = length gs then (if flag ty c then 0 else 1) else capG gs g ty)"
  "g0 < length gs \<Longrightarrow> capG (gs[g0 := signal ty0 (gs ! g0)]) g ty =
      (if g = g0 \<and> ty = ty0 then 0 else capG gs g ty)"
  by (cases ty; cases ty0; auto simp: capG_def nth_list_update nth_append)+

lemma gate_unset:
  assumes "accG (cm, Invoke (Injected g ty) vs # rest, pd, fs, gs, tr)"
  shows "g < length gs \<and> \<not> flag ty (gs ! g)"
proof -
  from assms have "1 + weigh (\<lambda>x. x = GateTok g ty) rest pd fs gs \<le> capG gs g ty"
    by (auto simp del: sum_list_eq_0_iff dest!: spec[of _ g] spec[of _ ty])
  then show ?thesis by (auto simp: capG_def split: if_splits)
qed

lemma frame_counting:
  assumes "accF (cm, Invoke (Done f) vs # rest, pd, fs, gs, tr)"
  shows "f < length fs \<and> 1 \<le> f_count (fs ! f)"
proof -
  from assms have "1 + weigh (ofFrame f) rest pd fs gs \<le> capF fs f"
    by (auto simp del: sum_list_eq_0_iff dest!: spec[of _ f])
  then show ?thesis by (auto simp: capF_def split: if_splits)
qed

lemma accF_D: "accF V \<Longrightarrow> (case V of (cm, ctl, pd, fs, gs, tr) \<Rightarrow> weigh (ofFrame f) ctl pd fs gs \<le> capF fs f)"
  by (cases V) auto

lemma accF_I: "(\<And>f. case V of (cm, ctl, pd, fs, gs, tr) \<Rightarrow> weigh (ofFrame f) ctl pd fs gs \<le> capF fs f) \<Longrightarrow> accF V"
  by (cases V) auto

lemma capF_beyond [simp]: "capF fs (length fs) = 0"
  by (simp add: capF_def)

lemma accF_moves:
  assumes "moves V V'" "accF V" "accG V"
  shows "accF V'"
proof (rule accF_I)
  fix f
  note H = accF_D[OF assms(2), of f]
  from assms(1) show "case V' of (cm, ctl, pd, fs, gs, tr) \<Rightarrow> weigh (ofFrame f) ctl pd fs gs \<le> capF fs f"
  proof (cases rule: moves.cases)
    case (m_complete j pd cm fs gs tr vs)
    then show ?thesis using H weigh_complete[of j pd "ofFrame f" fs gs] by simp
  next
    case (m_count f0 fs cm vs rest pd gs tr)
    then show ?thesis using H weigh_countDown[of f0 fs "ofFrame f" rest pd gs]
      by (auto split: if_splits)
  next
    case (m_apply f0 fs cm vs rest pd gs tr)
    then show ?thesis using H weigh_countDown[of f0 fs "ofFrame f" rest pd gs]
      by (auto split: if_splits)
  next
    case (m_frame ids cm k vs rest pd fs gs tr)
    then show ?thesis using H accF_D[OF assms(2), of "length fs"]
      by (auto simp: ft_def)
  next
    case (m_signal g gs ty cm vs rest pd fs tr)
    then show ?thesis using H weigh_signal[of g gs "ofFrame f" rest pd fs ty]
      by (auto split: if_splits)
  next
    case (m_open g gs ty cm vs rest pd fs tr)
    then show ?thesis using H weigh_signal[of g gs "ofFrame f" rest pd fs ty]
        gate_unset[OF assms(3)[unfolded m_open]]
      by (cases ty) (auto split: if_splits)
  next
    case (m_gate cm v a k vs rest pd fs gs tr)
    then show ?thesis using H by (auto simp: gt_def)
  next
    case (m_thrown evs c cm rest pd fs gs tr e)
    then show ?thesis using H weigh_drop[of "ofFrame f" pd fs gs rest] by auto
  qed (insert H, auto)
qed

lemma tally_simps [simp]:
  "tally Q [] = 0"
  "tally Q (e # es) = (if Q e then 1 else 0) + tally Q es"
  "tally Q (tr @ evs) = tally Q tr + tally Q evs"
  by (simp_all add: tally_def)

lemma tally_property:
  "\<forall>x \<in> set evs. isPropertyEvent x \<Longrightarrow> \<forall>e. Q e \<longrightarrow> \<not> isPropertyEvent e \<Longrightarrow> tally Q evs = 0"
  by (induction evs) auto

lemma tally_property_simps [simp]:
  assumes "\<forall>x \<in> set evs. isPropertyEvent x"
  shows "tally (isCalled t) evs = 0" "tally (isRequested t) evs = 0" "tally (\<lambda>e. e = Counted f) evs = 0"
    "tally (isApplied f) evs = 0" "tally (\<lambda>e. e = Signalled g ty) evs = 0"
    "tally (\<lambda>e. e = Opened g) evs = 0"
proof -
  have "\<forall>e. isCalled t e \<longrightarrow> \<not> isPropertyEvent e"
    by (rule allI, case_tac e) auto
  moreover have "\<forall>e. isApplied f e \<longrightarrow> \<not> isPropertyEvent e"
    by (rule allI, case_tac e) auto
  moreover have "\<forall>e. isRequested t e \<longrightarrow> \<not> isPropertyEvent e"
    by (rule allI, case_tac e) auto
  ultimately show "tally (isCalled t) evs = 0" "tally (isRequested t) evs = 0" "tally (\<lambda>e. e = Counted f) evs = 0"
    "tally (isApplied f) evs = 0" "tally (\<lambda>e. e = Signalled g ty) evs = 0"
    "tally (\<lambda>e. e = Opened g) evs = 0"
    using assms by (auto intro!: tally_property)
qed

lemma accG_D: "accG V \<Longrightarrow> (case V of (cm, ctl, pd, fs, gs, tr) \<Rightarrow> weigh (\<lambda>x. x = GateTok g ty) ctl pd fs gs \<le> capG gs g ty)"
  by (cases V) auto

lemma accG_I: "(\<And>g ty. case V of (cm, ctl, pd, fs, gs, tr) \<Rightarrow> weigh (\<lambda>x. x = GateTok g ty) ctl pd fs gs \<le> capG gs g ty) \<Longrightarrow> accG V"
  by (cases V) auto

lemma capG_beyond [simp]: "capG gs (length gs) ty = 0"
  by (simp add: capG_def)

lemma accG_moves:
  assumes "moves V V'" "accG V"
  shows "accG V'"
proof (rule accG_I)
  fix g ty
  let ?X = "\<lambda>x. x = GateTok g ty"
  note H = accG_D[OF assms(2), of g ty]
  from assms(1) show "case V' of (cm, ctl, pd, fs, gs, tr) \<Rightarrow> weigh ?X ctl pd fs gs \<le> capG gs g ty"
  proof (cases rule: moves.cases)
    case (m_complete j pd cm fs gs tr vs)
    then show ?thesis using H weigh_complete[of j pd ?X fs gs] by simp
  next
    case (m_count f0 fs cm vs rest pd gs tr)
    then show ?thesis using H weigh_countDown[of f0 fs ?X rest pd gs]
      by (auto split: if_splits)
  next
    case (m_apply f0 fs cm vs rest pd gs tr)
    then show ?thesis using H weigh_countDown[of f0 fs ?X rest pd gs]
      by (auto split: if_splits)
  next
    case (m_frame ids cm k vs rest pd fs gs tr)
    then show ?thesis using H by (auto simp: ft_def)
  next
    case (m_signal g0 gs ty0 cm vs rest pd fs tr)
    then show ?thesis using H weigh_signal[of g0 gs ?X rest pd fs ty0]
        gate_unset[OF assms(2)[unfolded m_signal]]
      by (cases ty0; cases ty) (auto simp: capG_def nth_list_update split: if_splits)
  next
    case (m_open g0 gs ty0 cm vs rest pd fs tr)
    then show ?thesis using H weigh_signal[of g0 gs ?X rest pd fs ty0]
        gate_unset[OF assms(2)[unfolded m_open]]
      by (cases ty0; cases ty) (auto simp: capG_def nth_list_update split: if_splits)
  next
    case (m_gate cm v a k vs rest pd fs gs tr)
    then show ?thesis using H accG_D[OF assms(2), of "length gs" ty]
      by (cases ty) (auto simp: gt_def)
  next
    case (m_thrown evs c cm rest pd fs gs tr e)
    then show ?thesis using H weigh_drop[of ?X pd fs gs rest] by auto
  qed (insert H, auto)
qed

lemma accU_D: "accU V \<Longrightarrow> (case V of (cm, ctl, pd, fs, gs, tr) \<Rightarrow> weigh (\<lambda>x. x = UserTok t) ctl pd fs gs + tally (isCalled t) tr \<le> tally (isRequested t) tr \<and> tally (isRequested t) tr \<le> 1)"
  by (cases V) auto

lemma accU_I: "(\<And>t. case V of (cm, ctl, pd, fs, gs, tr) \<Rightarrow> weigh (\<lambda>x. x = UserTok t) ctl pd fs gs + tally (isCalled t) tr \<le> tally (isRequested t) tr \<and> tally (isRequested t) tr \<le> 1) \<Longrightarrow> accU V"
  by (cases V) auto

lemma accU_moves:
  assumes "moves V V'" "accU V" "accG V"
  shows "accU V'"
proof (rule accU_I)
  fix t
  let ?X = "\<lambda>x. x = UserTok t"
  note H = accU_D[OF assms(2), of t]
  from assms(1) show "case V' of (cm, ctl, pd, fs, gs, tr) \<Rightarrow> weigh ?X ctl pd fs gs + tally (isCalled t) tr \<le> tally (isRequested t) tr \<and> tally (isRequested t) tr \<le> 1"
  proof (cases rule: moves.cases)
    case (m_complete j pd cm fs gs tr vs)
    then show ?thesis using H weigh_complete[of j pd ?X fs gs] by simp
  next
    case (m_count f0 fs cm vs rest pd gs tr)
    then show ?thesis using H weigh_countDown[of f0 fs ?X rest pd gs]
      by (auto split: if_splits)
  next
    case (m_apply f0 fs cm vs rest pd gs tr)
    then show ?thesis using H weigh_countDown[of f0 fs ?X rest pd gs]
      by (auto split: if_splits)
  next
    case (m_frame ids cm k vs rest pd fs gs tr)
    then show ?thesis using H by (auto simp: ft_def)
  next
    case (m_signal g0 gs ty0 cm vs rest pd fs tr)
    then show ?thesis using H weigh_signal[of g0 gs ?X rest pd fs ty0]
      by (auto split: if_splits)
  next
    case (m_open g0 gs ty0 cm vs rest pd fs tr)
    then show ?thesis using H weigh_signal[of g0 gs ?X rest pd fs ty0]
        gate_unset[OF assms(3)[unfolded m_open]]
      by (cases ty0) (auto split: if_splits)
  next
    case (m_gate cm v a k vs rest pd fs gs tr)
    then show ?thesis using H by (auto simp: gt_def)
  next
    case (m_thrown evs c cm rest pd fs gs tr e)
    then show ?thesis using H weigh_drop[of ?X pd fs gs rest] by auto
  qed (insert H, auto)
qed

lemma accC_D:
  "accC V \<Longrightarrow> (case V of (cm, ctl, pd, fs, gs, tr) \<Rightarrow>
     (if f < length fs
          then 0 \<le> f_count (fs ! f) \<and>
               int (tally (\<lambda>e. e = Counted f) tr) + f_count (fs ! f) = int (length (f_ids (fs ! f))) \<and>
               tally (isApplied f) tr = (if f_count (fs ! f) = 0 then 1 else 0)
          else tally (\<lambda>e. e = Counted f) tr = 0 \<and> tally (isApplied f) tr = 0))"
  by (cases V) auto

lemma accC_I:
  "(\<And>f. case V of (cm, ctl, pd, fs, gs, tr) \<Rightarrow>
     (if f < length fs
          then 0 \<le> f_count (fs ! f) \<and>
               int (tally (\<lambda>e. e = Counted f) tr) + f_count (fs ! f) = int (length (f_ids (fs ! f))) \<and>
               tally (isApplied f) tr = (if f_count (fs ! f) = 0 then 1 else 0)
          else tally (\<lambda>e. e = Counted f) tr = 0 \<and> tally (isApplied f) tr = 0)) \<Longrightarrow> accC V"
  by (cases V) auto

lemma store_nth [simp]:
  "length (storeInstance f i v fs) = length fs"
  "f_count (storeInstance f i v fs ! f') = f_count (fs ! f')"
  "f_ids (storeInstance f i v fs ! f') = f_ids (fs ! f')"
  "f_cb (storeInstance f i v fs ! f') = f_cb (fs ! f')"
  by (cases "f < length fs"; cases "f' = f"; simp add: storeInstance_def list_update_beyond)+

lemma countDown_nth [simp]:
  "length (countDown f fs) = length fs"
  "f < length fs \<Longrightarrow> f_count (countDown f fs ! f') = (if f' = f then f_count (fs ! f) - 1 else f_count (fs ! f'))"
  "f_ids (countDown f fs ! f') = f_ids (fs ! f')"
  "f_cb (countDown f fs ! f') = f_cb (fs ! f')"
  "f_instances (countDown f fs ! f') = f_instances (fs ! f')"
  by (cases "f < length fs"; cases "f' = f"; simp add: countDown_def list_update_beyond)+

lemma isApplied_simps [simp]: "\<not> isApplied f (Counted f')" "\<not> isApplied f (LoaderCalled ms)"
  "\<not> isApplied f (Handed c v)" "\<not> isApplied f ReturnedThis" "\<not> isApplied f (Called t vs)"
  "\<not> isApplied f (Signalled g ty)" "\<not> isApplied f (Opened g)" "\<not> isApplied f (Threw e)"
  by simp_all

lemma accC_moves:
  assumes "moves V V'" "accC V" "accF V"
  shows "accC V'"
proof (rule accC_I)
  fix f
  note H = accC_D[OF assms(2), of f]
  from assms(1) show "case V' of (cm, ctl, pd, fs, gs, tr) \<Rightarrow>
     (if f < length fs
          then 0 \<le> f_count (fs ! f) \<and>
               int (tally (\<lambda>e. e = Counted f) tr) + f_count (fs ! f) = int (length (f_ids (fs ! f))) \<and>
               tally (isApplied f) tr = (if f_count (fs ! f) = 0 then 1 else 0)
          else tally (\<lambda>e. e = Counted f) tr = 0 \<and> tally (isApplied f) tr = 0)"
  proof (cases rule: moves.cases)
    case (m_count f0 fs cm vs rest pd gs tr)
    then show ?thesis using H frame_counting[OF assms(3)[unfolded m_count]]
      by (auto split: if_splits)
  next
    case (m_apply f0 fs cm vs rest pd gs tr)
    then show ?thesis using H frame_counting[OF assms(3)[unfolded m_apply]]
      by (auto split: if_splits)
  next
    case (m_frame ids cm k vs rest pd fs gs tr)
    then show ?thesis using H by (auto simp: nth_append)
  next
    case (m_thrown evs c cm rest pd fs gs tr e)
    then show ?thesis using H by (auto split: if_splits)
  next
    case (m_injected evs k v ds cb p deps cm vs rest pd fs gs tr)
    then show ?thesis using H by (auto split: if_splits)
  qed (insert H, auto split: if_splits)
qed

lemma accS_D:
  "accS V \<Longrightarrow> (case V of (cm, ctl, pd, fs, gs, tr) \<Rightarrow>
     tally (\<lambda>e. e = Signalled g ty) tr = (if g < length gs \<and> flag ty (gs ! g) then 1 else 0) \<and>
     tally (\<lambda>e. e = Opened g) tr = (if g < length gs \<and> c_prop (gs ! g) \<and> c_setter (gs ! g) then 1 else 0))"
  by (cases V) auto

lemma accS_I:
  "(\<And>g ty. case V of (cm, ctl, pd, fs, gs, tr) \<Rightarrow>
     tally (\<lambda>e. e = Signalled g ty) tr = (if g < length gs \<and> flag ty (gs ! g) then 1 else 0) \<and>
     tally (\<lambda>e. e = Opened g) tr = (if g < length gs \<and> c_prop (gs ! g) \<and> c_setter (gs ! g) then 1 else 0))
   \<Longrightarrow> accS V"
  by (cases V) auto

lemma accS_moves:
  assumes "moves V V'" "accS V" "accG V"
  shows "accS V'"
proof (rule accS_I)
  fix g ty
  note H = accS_D[OF assms(2), of g ty]
  from assms(1) show "case V' of (cm, ctl, pd, fs, gs, tr) \<Rightarrow>
     tally (\<lambda>e. e = Signalled g ty) tr = (if g < length gs \<and> flag ty (gs ! g) then 1 else 0) \<and>
     tally (\<lambda>e. e = Opened g) tr = (if g < length gs \<and> c_prop (gs ! g) \<and> c_setter (gs ! g) then 1 else 0)"
  proof (cases rule: moves.cases)
    case (m_signal g0 gs ty0 cm vs rest pd fs tr)
    then show ?thesis using H gate_unset[OF assms(3)[unfolded m_signal]]
      by (cases ty0; cases ty) (auto simp: nth_list_update split: if_splits)
  next
    case (m_open g0 gs ty0 cm vs rest pd fs tr)
    then show ?thesis using H gate_unset[OF assms(3)[unfolded m_open]]
      by (cases ty0; cases ty) (auto simp: nth_list_update split: if_splits)
  next
    case (m_gate cm v a k vs rest pd fs gs tr)
    then show ?thesis using H by (cases ty) (auto simp: nth_append)
  next
    case (m_thrown evs c cm rest pd fs gs tr e)
    then show ?thesis using H by (auto split: if_splits)
  next
    case (m_injected evs k v ds cb p deps cm vs rest pd fs gs tr)
    then show ?thesis using H by (auto split: if_splits)
  qed (insert H, auto split: if_splits)
qed

lemma accounts_moves: "moves V V' \<Longrightarrow> accounts V \<Longrightarrow> accounts V'"
  unfolding accounts_def
  using accF_moves accG_moves accU_moves accC_moves accS_moves by blast

section \<open>Accounts of a session, and the shape of closures\<close>

lemma weigh_nil [simp]: "weigh X [] [] [] [] = 0"
  by (simp add: weigh_def)

lemma accounts_idle: "accounts (view (idle r))"
  by (simp add: accounts_def view_def idle_def ioc.extend_def world.fields_def capF_def capG_def)

lemma tally_filter: "tally Q tr = 0 \<longleftrightarrow> filter Q tr = []"
  by (simp add: tally_def)

lemma accounts_request:
  assumes "accounts (view s)" "control s = []" "filter (isRequested t) (trace s) = []"
  shows "accounts (view (request ids t s))"
proof -
  have t0: "tally (isRequested t) (trace s) = 0" using assms(3) by (simp add: tally_def)
  have w: "\<And>X. weigh X [CallGetComponent ids (UserCallback t), ReturnThis] (pending s) (frames s) (gates s)
      = (if X (UserTok t) then 1 else 0) + weigh X [] (pending s) (frames s) (gates s)"
    by simp
  from assms(1,2) t0 show ?thesis
    unfolding accounts_def
    by (auto simp: view_def request_def emit_def w simp del: weigh_ctl dest!: spec[of _ t])
qed

lemma accounts_act: "act P E a s = Some s' \<Longrightarrow> accounts (view s) \<Longrightarrow> accounts (view s')"
  by (cases a) (auto simp: accounts_request dest: step_moves accounts_moves split: if_splits)

lemma accounts_play: "play P E as s = Some s' \<Longrightarrow> accounts (view s) \<Longrightarrow> accounts (view s')"
  by (induction as arbitrary: s) (auto split: option.splits dest: accounts_act)

lemma isLoadedE: "isLoaded k \<Longrightarrow> (\<And>mm ms k'. k = Loaded mm ms k' \<Longrightarrow> R) \<Longrightarrow> R"
  by (cases k) auto
lemma isDoneE: "isDone k \<Longrightarrow> (\<And>f. k = Done f \<Longrightarrow> R) \<Longrightarrow> R"
  by (cases k) auto
lemma isInjectedE: "isInjected k \<Longrightarrow> (\<And>g ty. k = Injected g ty \<Longrightarrow> R) \<Longrightarrow> R"
  by (cases k) auto
lemma isTaskForE: "isTaskFor c k \<Longrightarrow> (\<And>f i. k = Task f i c \<Longrightarrow> R) \<Longrightarrow> R"
  by (cases k) auto

lemma keeps_refl [simp]: "keeps fs fs"
  by (simp add: keeps_def)
lemma keeps_append [simp]: "keeps fs (fs @ [fr])"
  by (simp add: keeps_def nth_append)
lemma keeps_store [simp]: "keeps fs (storeInstance f i v fs)"
  by (cases "f < length fs") (auto simp: keeps_def storeInstance_def nth_list_update list_update_beyond)
lemma keeps_countDown [simp]: "keeps fs (countDown f fs)"
  by (cases "f < length fs") (auto simp: keeps_def countDown_def nth_list_update list_update_beyond)

lemma fits_mono:
  "keeps fs fs' \<Longrightarrow> set tr \<subseteq> set tr' \<Longrightarrow> fits cm fs tr k \<Longrightarrow> fits cm fs' tr' k"
  by (induction k) (auto simp: keeps_def split: cont.splits)

lemma delivered_mono:
  "keeps fs fs' \<Longrightarrow> set tr \<subseteq> set tr' \<Longrightarrow> delivered fs tr t vs \<Longrightarrow> delivered fs' tr' t vs"
  unfolding delivered_def keeps_def
  by (metis (no_types, lifting) order_less_le_trans subsetD)

lemma fitsCall_mono:
  "keeps fs fs' \<Longrightarrow> set tr \<subseteq> set tr' \<Longrightarrow> fitsCall cm fs tr c \<Longrightarrow> fitsCall cm fs' tr' c"
  by (cases c) (auto simp: fits_mono delivered_mono split: cont.splits, auto simp: keeps_def)

lemma fitsFrame_mono:
  "keeps fs fs' \<Longrightarrow> set tr \<subseteq> set tr' \<Longrightarrow> f < length fs \<Longrightarrow>
   fitsFrame cm fs tr (fs ! f) \<Longrightarrow> fitsFrame cm fs' tr' (fs' ! f)"
  by (auto simp: fitsFrame_def fits_mono keeps_def split: cont.splits)

lemma shapeI:
  assumes old: "shape (cm, ctl, pd, fs, gs, tr)"
  and k: "keeps fs fs'" and t: "set tr \<subseteq> set tr'"
  and ctl: "\<forall>c\<in>set ctl'. c \<in> set ctl \<or> fitsCall cm fs' tr' c"
  and pd: "\<forall>p\<in>set pd'. p \<in> set pd \<or> (isLoaded (snd p) \<and> fits cm fs' tr' (snd p))"
  and fs: "\<forall>f<length fs'. f < length fs \<or> fitsFrame cm fs' tr' (fs' ! f)"
  and gs: "\<forall>g\<in>set gs'. g \<in> set gs \<or> isDone (g_cb g)"
  and called: "\<forall>t vs. Called t vs \<in> set tr' \<longrightarrow> Called t vs \<in> set tr \<or> delivered fs' tr' t vs"
  and handed: "\<forall>v. Handed None v \<in> set tr' \<longrightarrow> Handed None v \<in> set tr \<or> v = Undefined"
  shows "shape (cm, ctl', pd', fs', gs', tr')"
proof -
  have 1: "\<forall>c \<in> set ctl'. fitsCall cm fs' tr' c"
    using old ctl fitsCall_mono[OF k t] by auto
  have 2: "\<forall>p \<in> set pd'. isLoaded (snd p) \<and> fits cm fs' tr' (snd p)"
    using old pd fits_mono[OF k t] by fastforce
  have 3: "\<forall>f < length fs'. fitsFrame cm fs' tr' (fs' ! f)"
    using old fs fitsFrame_mono[OF k t] by auto
  have 4: "\<forall>g \<in> set gs'. isDone (g_cb g)"
    using old gs by auto
  have 5: "\<forall>t vs. Called t vs \<in> set tr' \<longrightarrow> delivered fs' tr' t vs"
  proof (intro allI impI)
    fix t vs assume c: "Called t vs \<in> set tr'"
    from old have o: "Called t vs \<in> set tr \<longrightarrow> delivered fs tr t vs" by simp
    from called c have "Called t vs \<in> set tr \<or> delivered fs' tr' t vs" by blast
    with o delivered_mono[OF k t] show "delivered fs' tr' t vs" by blast
  qed
  have 6: "\<forall>v. Handed None v \<in> set tr' \<longrightarrow> v = Undefined"
    using old handed by auto
  from 1 2 3 4 5 6 show ?thesis by simp
qed

lemma store_length_inst:
  "f' < length fs \<Longrightarrow> length (f_instances (storeInstance f i v fs ! f')) = length (f_instances (fs ! f'))"
  by (cases "f < length fs") (auto simp: storeInstance_def nth_list_update list_update_beyond)

lemma shape_moves:
  assumes "moves V V'" "shape V"
  shows "shape V'"
  using assms(1)
proof (cases rule: moves.cases)
  case (m_sync cm ms k rest pd fs gs tr vs)
  from assms(2) have old: "shape (cm, CallLoader ms k # rest, pd, fs, gs, tr)" unfolding m_sync(1) .
  show ?thesis unfolding m_sync
    by (rule shapeI[OF old]) (insert old, auto elim!: isLoadedE intro: fits_mono[where fs=fs and tr=tr])
next
  case (m_defer cm ms k rest pd fs gs tr)
  from assms(2) have old: "shape (cm, CallLoader ms k # rest, pd, fs, gs, tr)" unfolding m_defer(1) .
  show ?thesis unfolding m_defer
    by (rule shapeI[OF old]) (insert old, auto elim!: isLoadedE intro: fits_mono[where fs=fs and tr=tr])
next
  case (m_complete j pd cm fs gs tr vs)
  from assms(2) have old: "shape (cm, [], pd, fs, gs, tr)" unfolding m_complete(1) .
  have "pd ! j \<in> set pd" using m_complete by simp
  with old have "isLoaded (snd (pd ! j)) \<and> fits cm fs tr (snd (pd ! j))" by simp
  then show ?thesis unfolding m_complete
    by (intro shapeI[OF old]) (auto elim!: isLoadedE dest: in_set_takeD in_set_dropD)
next
  case (m_thrown evs c cm rest pd fs gs tr e)
  from assms(2) have old: "shape (cm, c # rest, pd, fs, gs, tr)" unfolding m_thrown(1) .
  show ?thesis unfolding m_thrown
    by (rule shapeI[OF old]) (insert m_thrown(3), auto)
next
  case (m_get cm ids k rest pd fs gs tr ms mm)
  from assms(2) have old: "shape (cm, CallGetComponent ids k # rest, pd, fs, gs, tr)" unfolding m_get(1) .
  show ?thesis unfolding m_get
    by (rule shapeI[OF old]) (insert old, auto split: cont.splits intro: fits_mono[where fs=fs and tr=tr])
next
  case (m_injectProp cm v a k rest pd fs gs tr ms mm ids p deps)
  from assms(2) have old: "shape (cm, CallInjectProp v a k # rest, pd, fs, gs, tr)" unfolding m_injectProp(1) .
  show ?thesis unfolding m_injectProp
    by (rule shapeI[OF old]) (insert old, auto split: cont.splits intro: fits_mono[where fs=fs and tr=tr])
next
  case (m_injectSetter cm v a k rest pd fs gs tr ms mm ids deps)
  from assms(2) have old: "shape (cm, CallInjectSetter v a k # rest, pd, fs, gs, tr)" unfolding m_injectSetter(1) .
  show ?thesis unfolding m_injectSetter
    by (rule shapeI[OF old]) (insert old, auto split: cont.splits intro: fits_mono[where fs=fs and tr=tr])
next
  case (m_hand c v cm k rest pd fs gs tr)
  from assms(2) have old: "shape (cm, CallCreateInstance c k # rest, pd, fs, gs, tr)" unfolding m_hand(1) .
  show ?thesis unfolding m_hand
    by (rule shapeI[OF old]) (insert old m_hand(3), auto elim!: isTaskForE simp: argument_def)
next
  case (m_resolve cm a k rest pd fs gs tr ids)
  from assms(2) have old: "shape (cm, CallCreateInstance (Some a) k # rest, pd, fs, gs, tr)" unfolding m_resolve(1) .
  show ?thesis unfolding m_resolve
    by (rule shapeI[OF old]) (insert old, auto elim!: isTaskForE intro: fits_mono[where fs=fs and tr=tr])
next
  case (m_loop f fs i c cm rest pd gs tr)
  from assms(2) have old: "shape (cm, LoopCreateInstances f (Suc i) # rest, pd, fs, gs, tr)" unfolding m_loop(1) .
  show ?thesis unfolding m_loop
    by (rule shapeI[OF old]) (insert old m_loop, auto intro: fits_mono[where fs=fs and tr=tr])
next
  case (m_loopEnd cm f rest pd fs gs tr)
  from assms(2) have old: "shape (cm, LoopCreateInstances f 0 # rest, pd, fs, gs, tr)" unfolding m_loopEnd(1) .
  show ?thesis unfolding m_loopEnd
    by (rule shapeI[OF old]) (insert old, auto intro: fits_mono[where fs=fs and tr=tr])
next
  case (m_return cm rest pd fs gs tr)
  from assms(2) have old: "shape (cm, ReturnThis # rest, pd, fs, gs, tr)" unfolding m_return(1) .
  show ?thesis unfolding m_return
    by (rule shapeI[OF old]) (insert old, auto intro: fits_mono[where fs=fs and tr=tr])
next
  case (m_user cm t vs rest pd fs gs tr)
  from assms(2) have old: "shape (cm, Invoke (UserCallback t) vs # rest, pd, fs, gs, tr)" unfolding m_user(1) .
  then have d: "delivered fs tr t vs" by simp
  show ?thesis unfolding m_user
    by (rule shapeI[OF old]) (insert d, auto intro: delivered_mono[where fs=fs and tr=tr] intro: fits_mono[where fs=fs and tr=tr])
next
  case (m_noIds cm k vs rest pd fs gs tr)
  from assms(2) have old: "shape (cm, Invoke (CreateInstances [] k) vs # rest, pd, fs, gs, tr)" unfolding m_noIds(1) .
  show ?thesis unfolding m_noIds
    by (rule shapeI[OF old]) (insert old, auto simp: delivered_def split: cont.splits intro: fits_mono[where fs=fs and tr=tr])
next
  case (m_frame ids cm k vs rest pd fs gs tr)
  from assms(2) have old: "shape (cm, Invoke (CreateInstances ids k) vs # rest, pd, fs, gs, tr)" unfolding m_frame(1) .
  show ?thesis unfolding m_frame
    by (rule shapeI[OF old])
       (insert old, auto simp: fitsFrame_def nth_append less_Suc_eq intro: fits_mono[where fs=fs and tr=tr] split: cont.splits)
next
  case (m_loaded cm mm ms k vs rest pd fs gs tr)
  from assms(2) have old: "shape (cm, Invoke (Loaded mm ms k) vs # rest, pd, fs, gs, tr)" unfolding m_loaded(1) .
  show ?thesis unfolding m_loaded
    by (rule shapeI[OF old]) (insert old, auto split: cont.splits intro: fits_mono[where fs=fs and tr=tr])
next
  case (m_taskNone f fs cm i vs rest pd gs tr)
  from assms(2) have old: "shape (cm, Invoke (Task f i None) vs # rest, pd, fs, gs, tr)" unfolding m_taskNone(1) .
  show ?thesis unfolding m_taskNone
    by (rule shapeI[OF old]) (insert old, auto intro: fits_mono[where fs=fs and tr=tr])
next
  case (m_taskSome f fs cm i a vs rest pd gs tr ms mm)
  from assms(2) have old: "shape (cm, Invoke (Task f i (Some a)) vs # rest, pd, fs, gs, tr)" unfolding m_taskSome(1) .
  show ?thesis unfolding m_taskSome
    by (rule shapeI[OF old]) (insert old, auto intro: fits_mono[where fs=fs and tr=tr])
next
  case (m_count f fs cm vs rest pd gs tr)
  from assms(2) have old: "shape (cm, Invoke (Done f) vs # rest, pd, fs, gs, tr)" unfolding m_count(1) .
  show ?thesis unfolding m_count
    by (rule shapeI[OF old]) (insert old, auto intro: fits_mono[where fs=fs and tr=tr])
next
  case (m_apply f fs cm vs rest pd gs tr)
  from assms(2) have old: "shape (cm, Invoke (Done f) vs # rest, pd, fs, gs, tr)" unfolding m_apply(1) .
  from old m_apply(3) have ff: "fitsFrame cm fs tr (fs ! f)" by simp
  have k: "keeps fs (countDown f fs)" by simp
  have t: "set tr \<subseteq> set (tr @ [Counted f, Applied f (f_instances (fs ! f))])" by auto
  have d: "\<And>x1. f_cb (fs ! f) = UserCallback x1 \<Longrightarrow>
      delivered (countDown f fs) (tr @ [Counted f, Applied f (f_instances (fs ! f))]) x1 (f_instances (fs ! f))"
    unfolding delivered_def using ff m_apply(3)
    by (intro exI[of _ "f_ids (fs ! f)"]) (auto simp: fitsFrame_def intro!: exI[of _ f])
  have "fitsCall cm (countDown f fs) (tr @ [Counted f, Applied f (f_instances (fs ! f))])
          (Invoke (f_cb (fs ! f)) (f_instances (fs ! f)))"
    using ff fits_mono[OF k t, of cm "f_cb (fs ! f)"] m_apply(3) d
    by (auto simp: fitsFrame_def split: cont.splits)
  then show ?thesis unfolding m_apply
    by (intro shapeI[OF old]) auto
next
  case (m_gate cm v a k vs rest pd fs gs tr)
  from assms(2) have old: "shape (cm, Invoke (InjectDeps v a k) vs # rest, pd, fs, gs, tr)" unfolding m_gate(1) .
  show ?thesis unfolding m_gate
    by (rule shapeI[OF old]) (insert old, auto intro: fits_mono[where fs=fs and tr=tr])
next
  case (m_signal g gs ty cm vs rest pd fs tr)
  from assms(2) have old: "shape (cm, Invoke (Injected g ty) vs # rest, pd, fs, gs, tr)" unfolding m_signal(1) .
  have "\<forall>x \<in> set (gs[g := signal ty (gs ! g)]). x \<in> set gs \<or> isDone (g_cb x)"
    using old m_signal(3) by (cases ty) (auto dest!: set_update_subset_insert[THEN subsetD])
  then show ?thesis unfolding m_signal
    by (intro shapeI[OF old]) auto
next
  case (m_open g gs ty cm vs rest pd fs tr)
  from assms(2) have old: "shape (cm, Invoke (Injected g ty) vs # rest, pd, fs, gs, tr)" unfolding m_open(1) .
  have 1: "\<forall>x \<in> set (gs[g := signal ty (gs ! g)]). x \<in> set gs \<or> isDone (g_cb x)"
    using old m_open(3) by (cases ty) (auto dest!: set_update_subset_insert[THEN subsetD])
  have "isDone (g_cb (gs ! g))" using old m_open(3) by simp
  then have 2: "fitsCall cm fs (tr @ [Signalled g ty, Opened g]) (Invoke (g_cb (gs ! g)) [])"
    by (auto elim!: isDoneE)
  from 1 2 show ?thesis unfolding m_open
    by (intro shapeI[OF old]) auto
next
  case (m_injected evs k v ds cb p deps cm vs rest pd fs gs tr)
  from assms(2) have old: "shape (cm, Invoke k vs # rest, pd, fs, gs, tr)" unfolding m_injected(1) .
  show ?thesis unfolding m_injected
    by (rule shapeI[OF old]) (insert old m_injected(3,4), auto elim!: isInjectedE)
next
  case (m_construct cm a k vs rest pd fs gs tr v)
  from assms(2) have old: "shape (cm, Invoke (Construct a k) vs # rest, pd, fs, gs, tr)" unfolding m_construct(1) .
  show ?thesis unfolding m_construct
    by (rule shapeI[OF old]) (insert old, auto elim!: isTaskForE simp: argument_def intro: fits_mono[where fs=fs and tr=tr])
qed

section \<open>The slots are filled\<close>

lemma kt_mono: "(\<And>x. X x \<Longrightarrow> Y x) \<Longrightarrow> kt X k \<le> kt Y k"
  by (induction k) auto

lemma ct_mono: "(\<And>x. X x \<Longrightarrow> Y x) \<Longrightarrow> ct X c \<le> ct Y c"
proof (cases c)
  case (LoopCreateInstances f n)
  assume xy: "\<And>x. X x \<Longrightarrow> Y x"
  have "length (filter (\<lambda>i. X (TaskTok f i)) [0..<n]) \<le> length (filter (\<lambda>i. Y (TaskTok f i)) [0..<n])"
    by (induction n) (auto dest: xy)
  then show ?thesis using LoopCreateInstances by (simp add: ct.simps(5))
qed (auto intro: kt_mono)

lemma sum_ct_mono: "(\<And>x. X x \<Longrightarrow> Y x) \<Longrightarrow> sum_list (map (ct X) ctl) \<le> sum_list (map (ct Y) ctl)"
  by (induction ctl) (auto intro: ct_mono add_mono)

lemma weigh_split: "weigh X ctl pd fs gs = sum_list (map (ct X) ctl) + weigh X [] pd fs gs"
  by (simp add: weigh_def)

lemma task_in_frame: "(x = TaskTok f i) \<Longrightarrow> ofFrame f x"
  by simp

lemma slots_D:
  "slots V \<Longrightarrow> (case V of (cm, ctl, pd, fs, gs, tr) \<Rightarrow>
     (f < length fs \<longrightarrow> 0 < f_count (fs ! f) \<longrightarrow>
      int (weigh (ofFrame f) ctl pd fs gs) = f_count (fs ! f) \<longrightarrow> i < length (f_ids (fs ! f)) \<longrightarrow>
        0 < weigh (\<lambda>x. x = TaskTok f i) ctl pd fs gs \<or>
        Handed (cm (f_ids (fs ! f) ! i)) (f_instances (fs ! f) ! i) \<in> set tr))"
  by (cases V) auto

lemma slots_D2:
  "slots V \<Longrightarrow> (case V of (cm, ctl, pd, fs, gs, tr) \<Rightarrow>
     (Applied f vs \<in> set tr \<longrightarrow>
         f < length fs \<and> length vs = length (f_ids (fs ! f)) \<and>
         (\<forall>i < length vs. Handed (cm (f_ids (fs ! f) ! i)) (vs ! i) \<in> set tr)))"
  by (cases V) auto

lemma slots_I:
  assumes "\<And>f i. case V of (cm, ctl, pd, fs, gs, tr) \<Rightarrow>
     (f < length fs \<longrightarrow> 0 < f_count (fs ! f) \<longrightarrow>
      int (weigh (ofFrame f) ctl pd fs gs) = f_count (fs ! f) \<longrightarrow> i < length (f_ids (fs ! f)) \<longrightarrow>
        0 < weigh (\<lambda>x. x = TaskTok f i) ctl pd fs gs \<or>
        Handed (cm (f_ids (fs ! f) ! i)) (f_instances (fs ! f) ! i) \<in> set tr)"
  and "\<And>f vs. case V of (cm, ctl, pd, fs, gs, tr) \<Rightarrow>
     (Applied f vs \<in> set tr \<longrightarrow>
         f < length fs \<and> length vs = length (f_ids (fs ! f)) \<and>
         (\<forall>i < length vs. Handed (cm (f_ids (fs ! f) ! i)) (vs ! i) \<in> set tr))"
  shows "slots V"
  using assms by (cases V) auto

lemma store_inst_nth:
  "f < length fs \<Longrightarrow> f_instances (storeInstance f i v fs ! f') =
     (if f' = f then (f_instances (fs ! f))[i := v] else f_instances (fs ! f'))"
  by (auto simp: storeInstance_def nth_list_update)

lemma ct_loop_task [simp]:
  "ct (\<lambda>x. x = TaskTok f' i') (LoopCreateInstances f n) = (if f' = f \<and> i' < n then 1 else 0)"
  by (induction n) (auto simp: ct_loop_Suc)

lemma sum_list_mono_map:
  fixes g h :: "'a \<Rightarrow> nat"
  shows "(\<And>x. g x \<le> h x) \<Longrightarrow> sum_list (map g xs) \<le> sum_list (map h xs)"
  by (induction xs) (auto intro: add_mono)

lemma weigh_mono: "(\<And>x. X x \<Longrightarrow> Y x) \<Longrightarrow> weigh X ctl pd fs gs \<le> weigh Y ctl pd fs gs"
  unfolding weigh_def
  by (intro add_mono sum_list_mono_map) (auto simp: ft_def gt_def intro: kt_mono ct_mono)

lemma slots_moves:
  assumes mv: "moves V V'" and sl: "slots V" and sh: "shape V" and aF: "accF V" and aG: "accG V"
  shows "slots V'"
proof (rule slots_I)
  fix f i
  let ?T = "\<lambda>x. x = TaskTok f i"
  note A = slots_D[OF sl, of f i]
  note F = accF_D[OF aF, of f]
  from mv show "case V' of (cm, ctl, pd, fs, gs, tr) \<Rightarrow>
     (f < length fs \<longrightarrow> 0 < f_count (fs ! f) \<longrightarrow>
      int (weigh (ofFrame f) ctl pd fs gs) = f_count (fs ! f) \<longrightarrow> i < length (f_ids (fs ! f)) \<longrightarrow>
        0 < weigh ?T ctl pd fs gs \<or>
        Handed (cm (f_ids (fs ! f) ! i)) (f_instances (fs ! f) ! i) \<in> set tr)"
  proof (cases rule: moves.cases)
    case (m_complete j pd cm fs gs tr vs)
    then show ?thesis using A weigh_complete[of j pd "ofFrame f" fs gs] weigh_complete[of j pd ?T fs gs]
      by auto
  next
    case (m_thrown evs c cm rest pd fs gs tr e)
    have 1: "sum_list (map (ct ?T) (c # rest)) \<le> sum_list (map (ct (ofFrame f)) (c # rest))"
      by (rule sum_ct_mono) simp
    show ?thesis using A F 1 unfolding m_thrown
      by (auto simp: weigh_split[where ctl="c # rest"] capF_def simp del: weigh_ctl split: if_splits)
  next
    case (m_frame ids cm k vs rest pd fs gs tr)
    then show ?thesis using A F accF_D[OF aF, of "length fs"]
      by (auto simp: nth_append ft_def less_Suc_eq)
  next
    case (m_taskNone f0 fs cm i0 vs rest pd gs tr)
    from sh have "fitsCall cm fs tr (Invoke (Task f0 i0 None) vs)"
      unfolding m_taskNone(1) shape.simps by (meson list.set_intros(1))
    then have h: "cm (f_ids (fs ! f0) ! i0) = None" "Handed None (argument vs 0) \<in> set tr"
      "i0 < length (f_ids (fs ! f0))" by auto
    from sh m_taskNone(3) have l: "length (f_instances (fs ! f0)) = length (f_ids (fs ! f0))"
      unfolding m_taskNone(1) by (simp add: fitsFrame_def)
    show ?thesis using A h l m_taskNone(3) unfolding m_taskNone(1,2)
      by (cases "f = f0"; cases "i = i0") (auto simp: store_inst_nth)
  next
    case (m_taskSome f0 fs cm i0 a vs rest pd gs tr ms mm)
    from sh have "fitsCall cm fs tr (Invoke (Task f0 i0 (Some a)) vs)"
      unfolding m_taskSome(1) shape.simps by (meson list.set_intros(1))
    then have h: "cm (f_ids (fs ! f0) ! i0) = Some a" "Handed (Some a) (argument vs 0) \<in> set tr"
      "i0 < length (f_ids (fs ! f0))" by auto
    from sh m_taskSome(3) have l: "length (f_instances (fs ! f0)) = length (f_ids (fs ! f0))"
      unfolding m_taskSome(1) by (simp add: fitsFrame_def)
    show ?thesis using A h l m_taskSome(3) unfolding m_taskSome(1,2)
      by (cases "f = f0"; cases "i = i0") (auto simp: store_inst_nth)
  next
    case (m_count f0 fs cm vs rest pd gs tr)
    then show ?thesis using A weigh_countDown[of f0 fs "ofFrame f" rest pd gs]
        weigh_countDown[of f0 fs ?T rest pd gs]
      by (auto split: if_splits)
  next
    case (m_apply f0 fs cm vs rest pd gs tr)
    then show ?thesis using A weigh_countDown[of f0 fs "ofFrame f" rest pd gs]
        weigh_countDown[of f0 fs ?T rest pd gs]
      by (auto split: if_splits)
  next
    case (m_signal g gs ty cm vs rest pd fs tr)
    then show ?thesis using A weigh_signal[of g gs "ofFrame f" rest pd fs ty]
        weigh_signal[of g gs ?T rest pd fs ty]
      by (auto split: if_splits)
  next
    case (m_open g gs ty cm vs rest pd fs tr)
    then show ?thesis using A weigh_signal[of g gs "ofFrame f" rest pd fs ty]
        weigh_signal[of g gs ?T rest pd fs ty] gate_unset[OF aG[unfolded m_open]]
      by (cases ty) (auto split: if_splits)
  next
    case (m_gate cm v a k vs rest pd fs gs tr)
    then show ?thesis using A by (auto simp: gt_def)
  next
    case (m_loop f0 fs i0 c cm rest pd gs tr)
    then show ?thesis using A by (auto simp: ct_loop_Suc split: if_splits)
  qed (insert A, auto)
next
  fix f vs
  note B = slots_D2[OF sl, of f vs]
  from mv show "case V' of (cm, ctl, pd, fs, gs, tr) \<Rightarrow>
     (Applied f vs \<in> set tr \<longrightarrow>
         f < length fs \<and> length vs = length (f_ids (fs ! f)) \<and>
         (\<forall>i < length vs. Handed (cm (f_ids (fs ! f) ! i)) (vs ! i) \<in> set tr))"
  proof (cases rule: moves.cases)
    case (m_apply f0 fs cm vs0 rest pd gs tr)
    from sh m_apply(3) have l: "length (f_instances (fs ! f0)) = length (f_ids (fs ! f0))"
      unfolding m_apply(1) by (simp add: fitsFrame_def)
    have w: "weigh (ofFrame f0) rest pd fs gs = 0"
      using accF_D[OF aF, of f0] m_apply(3,4) unfolding m_apply(1) by (simp add: capF_def)
    have h: "\<forall>i < length (f_ids (fs ! f0)).
        Handed (cm (f_ids (fs ! f0) ! i)) (f_instances (fs ! f0) ! i) \<in> set tr"
    proof (intro allI impI)
      fix i assume i: "i < length (f_ids (fs ! f0))"
      have "weigh (\<lambda>x. x = TaskTok f0 i) rest pd fs gs \<le> weigh (ofFrame f0) rest pd fs gs"
        by (rule weigh_mono) simp
      with w have "weigh (\<lambda>x. x = TaskTok f0 i) rest pd fs gs = 0" by simp
      with slots_D[OF sl, of f0 i] i w m_apply(3,4)
      show "Handed (cm (f_ids (fs ! f0) ! i)) (f_instances (fs ! f0) ! i) \<in> set tr"
        unfolding m_apply(1) by simp
    qed
    show ?thesis using B h l m_apply(3) unfolding m_apply(1,2) by auto
  next
    case (m_frame ids cm k vs rest pd fs gs tr)
    then show ?thesis using B by (auto simp: nth_append)
  qed (insert B, auto)
qed

section \<open>Sessions\<close>

lemma inOrder_nil [simp]: "inOrder fs []"
  by (simp add: inOrder_def)

lemma inOrder_snoc: "inOrder fs (tr @ [e]) = (inOrder fs tr \<and> allowedAfter fs tr e)"
proof
  assume a: "inOrder fs (tr @ [e])"
  have "inOrder fs tr" unfolding inOrder_def
  proof (intro allI impI)
    fix pre x post assume "tr = pre @ x # post"
    then have "tr @ [e] = pre @ x # (post @ [e])" by simp
    with a show "allowedAfter fs pre x" unfolding inOrder_def by blast
  qed
  moreover have "allowedAfter fs tr e" using a unfolding inOrder_def by blast
  ultimately show "inOrder fs tr \<and> allowedAfter fs tr e" ..
next
  assume a: "inOrder fs tr \<and> allowedAfter fs tr e"
  show "inOrder fs (tr @ [e])" unfolding inOrder_def
  proof (intro allI impI)
    fix pre x post assume h: "tr @ [e] = pre @ x # post"
    show "allowedAfter fs pre x"
    proof (cases post rule: rev_cases)
      case Nil
      with h have "pre = tr" "x = e" by auto
      with a show ?thesis by simp
    next
      case (snoc post' y)
      with h have "tr = pre @ x # post'" by auto
      with a show ?thesis unfolding inOrder_def by blast
    qed
  qed
qed

lemma allowedAfter_property: "isPropertyEvent e \<Longrightarrow> allowedAfter fs pre e"
  by (cases e) auto

lemma inOrder_quiet: "\<forall>x \<in> set evs. isPropertyEvent x \<Longrightarrow> inOrder fs (tr @ evs) = inOrder fs tr"
proof (induction evs rule: rev_induct)
  case Nil
  then show ?case by simp
next
  case (snoc x xs)
  have "inOrder fs ((tr @ xs) @ [x]) = inOrder fs tr"
    unfolding inOrder_snoc using snoc by (simp add: allowedAfter_property)
  then show ?case by simp
qed

lemma allowedAfter_keeps: "keeps fs fs' \<Longrightarrow> allowedAfter fs pre e \<Longrightarrow> allowedAfter fs' pre e"
  by (cases e) (auto intro: delivered_mono)

lemma inOrder_keeps: "keeps fs fs' \<Longrightarrow> inOrder fs tr \<Longrightarrow> inOrder fs' tr"
  unfolding inOrder_def using allowedAfter_keeps by blast

lemma tally_pos: "0 < tally Q tr \<Longrightarrow> \<exists>e \<in> set tr. Q e"
  unfolding tally_def by (metis filter_False length_greater_0_conv)

lemma ordered_moves:
  assumes mv: "moves V V'" and o: "ordered V" and ac: "accounts V" and sh: "shape V"
  shows "ordered V'"
  using mv
proof (cases rule: moves.cases)
  case (m_thrown evs c cm rest pd fs gs tr e)
  have "inOrder fs ((tr @ evs) @ [Threw e])"
    unfolding inOrder_snoc using o m_thrown by (simp add: inOrder_quiet)
  then show ?thesis using m_thrown by simp
next
  case (m_injected evs k v ds cb p deps cm vs rest pd fs gs tr)
  then show ?thesis using o by (simp add: inOrder_quiet)
next
  case (m_user cm t vs rest pd fs gs tr)
  from sh have "delivered fs tr t vs" unfolding m_user by simp
  then show ?thesis using o m_user by (simp add: inOrder_snoc)
next
  case (m_frame ids cm k vs rest pd fs gs tr)
  then show ?thesis using o inOrder_keeps[OF keeps_append] by simp
next
  case (m_taskNone f fs cm i vs rest pd gs tr)
  then show ?thesis using o inOrder_keeps[OF keeps_store] by simp
next
  case (m_taskSome f fs cm i a vs rest pd gs tr ms mm)
  then show ?thesis using o inOrder_keeps[OF keeps_store] by simp
next
  case (m_count f fs cm vs rest pd gs tr)
  then show ?thesis using o inOrder_keeps[OF keeps_countDown] by (simp add: inOrder_snoc)
next
  case (m_apply f fs cm vs rest pd gs tr)
  from ac have "accC V" by (simp add: accounts_def)
  from accC_D[OF this, of f] m_apply
  have 1: "int (tally (\<lambda>e. e = Counted f) tr) + 1 = int (length (f_ids (fs ! f)))" by simp
  from sh m_apply have "fitsFrame cm fs tr (fs ! f)" by simp
  then have 2: "length (f_instances (fs ! f)) = length (f_ids (fs ! f))" by (simp add: fitsFrame_def)
  from o m_apply have "inOrder (countDown f fs) tr" using inOrder_keeps[OF keeps_countDown] by simp
  then have "inOrder (countDown f fs) ((tr @ [Counted f]) @ [Applied f (f_instances (fs ! f))])"
    unfolding inOrder_snoc using 1 2 by simp
  then show ?thesis using m_apply by simp
next
  case (m_open g gs ty cm vs rest pd fs tr)
  from ac have "accS V" by (simp add: accounts_def)
  note S = accS_D[OF this, of g, unfolded m_open]
  have "Signalled g Prop \<in> set (tr @ [Signalled g ty]) \<and> Signalled g Setter \<in> set (tr @ [Signalled g ty])"
  proof (cases ty)
    case Prop
    then have "c_setter (gs ! g)" using m_open by simp
    with S[of Setter] m_open have "0 < tally (\<lambda>e. e = Signalled g Setter) tr" by simp
    from tally_pos[OF this] Prop show ?thesis by simp
  next
    case Setter
    then have "c_prop (gs ! g)" using m_open by simp
    with S[of Prop] m_open have "0 < tally (\<lambda>e. e = Signalled g Prop) tr" by simp
    from tally_pos[OF this] Setter show ?thesis by simp
  qed
  then have "inOrder fs ((tr @ [Signalled g ty]) @ [Opened g])"
    unfolding inOrder_snoc using o m_open by simp
  then show ?thesis using m_open by simp
qed (insert o, auto simp: inOrder_snoc)

lemma due_moves:
  assumes mv: "moves V V'" and d: "due V"
  shows "due V'"
  using mv
proof (cases rule: moves.cases)
  case (m_frame ids cm k vs rest pd fs gs tr)
  then show ?thesis using d by (auto simp: nth_append less_Suc_eq)
next
  case (m_apply f fs cm vs rest pd gs tr)
  then show ?thesis using d by auto
next
  case (m_count f fs cm vs rest pd gs tr)
  then show ?thesis using d by auto
next
  case (m_thrown evs c cm rest pd fs gs tr e)
  from d have "\<forall>f < length fs. \<forall>t. f_cb (fs ! f) = UserCallback t \<and> f_count (fs ! f) = 0 \<longrightarrow>
        (\<exists>vs. Called t vs \<in> set tr)" unfolding m_thrown using m_thrown(4) by simp
  then show ?thesis unfolding m_thrown by fastforce
next
  case (m_user cm t vs rest pd fs gs tr)
  then show ?thesis using d by fastforce
next
  case (m_injected evs k v ds cb p deps cm vs rest pd fs gs tr)
  then show ?thesis using d by fastforce
qed (insert d, auto)

lemma tally_quiet [simp]:
  assumes "\<forall>x \<in> set evs. isPropertyEvent x"
  shows "tally isRequest evs = 0" "tally isThrew evs = 0" "tally (\<lambda>e. e = ReturnedThis) evs = 0"
proof -
  have "\<forall>e. isRequest e \<longrightarrow> \<not> isPropertyEvent e"
    by (rule allI, case_tac e) auto
  moreover have "\<forall>e. isThrew e \<longrightarrow> \<not> isPropertyEvent e"
    by (rule allI, case_tac e) auto
  ultimately show "tally isRequest evs = 0" "tally isThrew evs = 0" "tally (\<lambda>e. e = ReturnedThis) evs = 0"
    using assms by (auto intro!: tally_property)
qed

lemma returns_moves:
  assumes mv: "moves V V'" and d: "returns V"
  shows "returns V'"
  using mv
proof (cases rule: moves.cases)
  case (m_thrown evs c cm rest pd fs gs tr e)
  then show ?thesis using d by (auto split: if_splits)
next
  case (m_injected evs k v ds cb p deps cm vs rest pd fs gs tr)
  then show ?thesis using d by (auto split: if_splits)
qed (insert d, auto)

lemma sound_moves: "moves V V' \<Longrightarrow> sound V \<Longrightarrow> sound V'"
  unfolding sound_def accounts_def
  using accF_moves accG_moves accU_moves accC_moves accS_moves shape_moves slots_moves
    ordered_moves[unfolded accounts_def] due_moves returns_moves by blast

lemma sound_idle: "sound (view (idle r))"
  using accounts_idle[of r]
  by (simp add: sound_def view_def idle_def ioc.extend_def world.fields_def)

lemma sound_request:
  assumes s: "sound (view s)" and c: "control s = []" and n: "filter (isRequested t) (trace s) = []"
  shows "sound (view (request ids t s))"
proof -
  let ?tr = "trace s @ [Requested t (normalize ids)]"
  let ?ctl = "[CallGetComponent ids (UserCallback t), ReturnThis]"
  have v: "view (request ids t s) = (components s, ?ctl, pending s, frames s, gates s, ?tr)"
    by (simp add: view_def request_def emit_def)
  have v0: "view s = (components s, [], pending s, frames s, gates s, trace s)"
    using c by (simp add: view_def)
  from s have a: "accounts (view s)" by (simp add: sound_def)
  have 1: "accounts (view (request ids t s))" by (rule accounts_request[OF a c n])
  from s have sh: "shape (components s, [], pending s, frames s, gates s, trace s)"
    unfolding sound_def v0 by simp
  have 2: "shape (view (request ids t s))" unfolding v
    by (rule shapeI[OF sh]) auto
  from s have sl: "slots (components s, [], pending s, frames s, gates s, trace s)"
    unfolding sound_def v0 by simp
  have 3: "slots (view (request ids t s))" unfolding v
    using sl by auto
  from s have "inOrder (frames s) (trace s)" unfolding sound_def v0 by simp
  then have 4: "ordered (view (request ids t s))" unfolding v
    by (simp add: inOrder_snoc)
  from s have "due (components s, [], pending s, frames s, gates s, trace s)"
    unfolding sound_def v0 by simp
  then have 5: "due (view (request ids t s))" unfolding v by fastforce
  from s have "returns (components s, [], pending s, frames s, gates s, trace s)"
    unfolding sound_def v0 by simp
  then have 6: "returns (view (request ids t s))" unfolding v by auto
  from 1 2 3 4 5 6 show ?thesis by (simp add: sound_def)
qed

lemma sound_act: "act P E a s = Some s' \<Longrightarrow> sound (view s) \<Longrightarrow> sound (view s')"
  by (cases a) (auto simp: sound_request dest: step_moves sound_moves split: if_splits)

lemma sound_play: "play P E as s = Some s' \<Longrightarrow> sound (view s) \<Longrightarrow> sound (view s')"
  by (induction as arbitrary: s) (auto split: option.splits dest: sound_act)

lemma sound_session: "play P E as (idle r) = Some s \<Longrightarrow> sound (view s)"
  using sound_play sound_idle by blast

text \<open>A move keeps the registered ids and extends the log.\<close>

lemma moves_keeps: "moves V V' \<Longrightarrow> fst V' = fst V \<and> (\<exists>evs. snd (snd (snd (snd (snd V')))) = snd (snd (snd (snd (snd V)))) @ evs)"
  by (induction rule: moves.induct) auto

lemma step_keeps:
  assumes "step P E ch s = Some s'"
  shows "components s' = components s \<and> (\<exists>evs. trace s' = trace s @ evs)"
  using moves_keeps[OF step_moves[OF assms]] by (simp add: view_def)

lemma act_keeps:
  "act P E a s = Some s' \<Longrightarrow> components s' = components s \<and> (\<exists>evs. trace s' = trace s @ evs)"
  by (cases a) (auto simp: request_def emit_def dest: step_keeps split: if_splits)

lemma play_keeps:
  "play P E as s = Some s' \<Longrightarrow> components s' = components s \<and> (\<exists>evs. trace s' = trace s @ evs)"
proof (induction as arbitrary: s)
  case Nil
  then show ?case by simp
next
  case (Cons a as)
  then obtain s1 where 1: "act P E a s = Some s1" and 2: "play P E as s1 = Some s'"
    by (auto split: option.splits)
  from act_keeps[OF 1] Cons.IH[OF 2] show ?case by auto
qed



section \<open>What a session shows of a request\<close>

lemma session_view:
  assumes "play P E acts (idle r) = Some s"
  shows "sound (components r, control s, pending s, frames s, gates s, trace s)"
proof -
  from play_keeps[OF assms] have "components s = components r"
    by (simp add: idle_def ioc.extend_def)
  with sound_session[OF assms] show ?thesis by (simp add: view_def)
qed








lemma request_step:
  "step P E ch (request ids t s0) =
     Some (getComponent P ids (UserCallback t)
             (s0\<lparr>trace := trace s0 @ [Requested t (normalize ids)], control := [ReturnThis]\<rparr>))"
  by (simp add: step_def request_def emit_def settle_def)

lemma neededModules_state: "\<exists>ws. snd (neededModules P ids mm s) = s\<lparr>warnings := ws\<rparr>"
proof (induction ids arbitrary: mm s)
  case Nil
  have "s = s\<lparr>warnings := warnings s\<rparr>" by simp
  then show ?case by (metis neededModules.simps(1) snd_conv)
next
  case (Cons x xs)
  show ?case
  proof (cases "components s x")
    case None
    from Cons.IH[of mm "warn (''`'' @ x @ ''` has not been added to the Ioc'') s"]
    obtain ws where "snd (neededModules P xs mm (warn (''`'' @ x @ ''` has not been added to the Ioc'') s))
        = (warn (''`'' @ x @ ''` has not been added to the Ioc'') s)\<lparr>warnings := ws\<rparr>" by blast
    with None show ?thesis by (auto simp: warn_def)
  next
    case (Some a)
    from Cons.IH[of _ s] Some show ?thesis by simp
  qed
qed

lemma getComponent_state:
  "\<exists>mm ws. getComponent P ids cb s =
     s\<lparr>warnings := ws,
       control := CallLoader (moduleNames mm) (Loaded mm (moduleNames mm) (CreateInstances (normalize ids) cb))
                  # control s\<rparr>"
proof (cases "neededModules P (normalize ids) [] s")
  case (Pair mm s1)
  from neededModules_state[of P "normalize ids" "[]" s] Pair obtain ws where "s1 = s\<lparr>warnings := ws\<rparr>"
    by auto
  with Pair show ?thesis
    by (auto simp: getComponent_def loadComponentModules_def push_def intro!: exI[of _ mm] exI[of _ ws])
qed

lemma step_defer:
  "control s = CallLoader ms k # rest \<Longrightarrow>
   step P E Defer s = Some (emit (LoaderCalled ms) (s\<lparr>control := rest, pending := pending s @ [(ms, k)]\<rparr>))"
  by (simp add: step_def)

lemma request_returns:
  "\<exists>s1 ms k. run P E [c1, Defer, c3] (request ids t s0) = Some s1 \<and> control s1 = [] \<and>
      pending s1 = pending s0 @ [(ms, k)] \<and>
      trace s1 = trace s0 @ [Requested t (normalize ids), LoaderCalled ms, ReturnedThis]"
proof -
  let ?s = "s0\<lparr>trace := trace s0 @ [Requested t (normalize ids)], control := [ReturnThis]\<rparr>"
  from getComponent_state[of P ids "UserCallback t" ?s] obtain mm ws where
    g: "getComponent P ids (UserCallback t) ?s =
     ?s\<lparr>warnings := ws,
       control := CallLoader (moduleNames mm) (Loaded mm (moduleNames mm) (CreateInstances (normalize ids) (UserCallback t)))
                  # control ?s\<rparr>" by blast
  show ?thesis
    by (simp add: request_step g step_defer)
       (simp add: step_def emit_def settle_def)
qed

lemma injectDeps_concurrent:
  assumes c: "control s0 = Invoke (InjectDeps inst a cb) vs # rest" and o: "objects s0 a = Some c"
  shows "\<exists>s5 ms1 k1 ms2 k2. run P E [c1, c2, Defer, c4, Defer] s0 = Some s5 \<and> control s5 = rest \<and>
      pending s5 = pending s0 @ [(ms1, k1), (ms2, k2)] \<and>
      kt (\<lambda>x. x = GateTok (length (gates s0)) Prop) k1 = 1 \<and>
      kt (\<lambda>x. x = GateTok (length (gates s0)) Setter) k2 = 1 \<and>
      gates s5 = gates s0 @ [\<lparr>c_prop = False, c_setter = False, g_cb = cb\<rparr>] \<and>
      trace s5 = trace s0 @ [LoaderCalled ms1, LoaderCalled ms2]"
proof -
  let ?g = "length (gates s0)"
  let ?s1 = "s0\<lparr>gates := gates s0 @ [\<lparr>c_prop = False, c_setter = False, g_cb = cb\<rparr>],
                 control := CallInjectProp inst a (Injected ?g Prop) # CallInjectSetter inst a (Injected ?g Setter) # rest\<rparr>"
  have 1: "step P E c1 s0 = Some ?s1"
    using c by (simp add: step_def settle_def injectDeps_def push_def)
  let ?p = "?s1\<lparr>control := CallInjectSetter inst a (Injected ?g Setter) # rest\<rparr>"
  from getComponent_state[of P "depIds (propDeps c)" "PropCallback inst (properties c) (propDeps c) (Injected ?g Prop)" ?p]
  obtain mm1 ws1 where g1: "getComponent P (depIds (propDeps c)) (PropCallback inst (properties c) (propDeps c) (Injected ?g Prop)) ?p =
     ?p\<lparr>warnings := ws1,
       control := CallLoader (moduleNames mm1) (Loaded mm1 (moduleNames mm1)
                    (CreateInstances (normalize (depIds (propDeps c))) (PropCallback inst (properties c) (propDeps c) (Injected ?g Prop))))
                  # control ?p\<rparr>" by blast
  let ?k1 = "Loaded mm1 (moduleNames mm1)
                    (CreateInstances (normalize (depIds (propDeps c))) (PropCallback inst (properties c) (propDeps c) (Injected ?g Prop)))"
  let ?s2 = "?p\<lparr>warnings := ws1, control := CallLoader (moduleNames mm1) ?k1 # control ?p\<rparr>"
  have 2: "step P E c2 ?s1 = Some ?s2"
    using o g1 by (simp add: step_def settle_def injectPropDependencies_def)
  let ?s3 = "emit (LoaderCalled (moduleNames mm1)) (?s2\<lparr>control := control ?p, pending := pending s0 @ [(moduleNames mm1, ?k1)]\<rparr>)"
  have 3: "step P E Defer ?s2 = Some ?s3"
    by (simp add: step_def)
  let ?q = "?s3\<lparr>control := rest\<rparr>"
  let ?deps = "case setterDeps c of None \<Rightarrow> [] | Some ds \<Rightarrow> ds"
  from getComponent_state[of P "IdArray ?deps" "SetterCallback inst ?deps (Injected ?g Setter)" ?q]
  obtain mm2 ws2 where g2: "getComponent P (IdArray ?deps) (SetterCallback inst ?deps (Injected ?g Setter)) ?q =
     ?q\<lparr>warnings := ws2,
       control := CallLoader (moduleNames mm2) (Loaded mm2 (moduleNames mm2)
                    (CreateInstances (normalize (IdArray ?deps)) (SetterCallback inst ?deps (Injected ?g Setter))))
                  # control ?q\<rparr>" by blast
  let ?k2 = "Loaded mm2 (moduleNames mm2)
                    (CreateInstances (normalize (IdArray ?deps)) (SetterCallback inst ?deps (Injected ?g Setter)))"
  let ?s4 = "?q\<lparr>warnings := ws2, control := CallLoader (moduleNames mm2) ?k2 # control ?q\<rparr>"
  have 4: "step P E c4 ?s3 = Some ?s4"
    using o g2 by (simp add: step_def settle_def injectSetterDependencies_def emit_def Let_def)
  let ?s5 = "emit (LoaderCalled (moduleNames mm2)) (?s4\<lparr>control := rest, pending := pending ?s4 @ [(moduleNames mm2, ?k2)]\<rparr>)"
  have 5: "step P E Defer ?s4 = Some ?s5"
    by (simp add: step_def)
  have r: "run P E [c1, c2, Defer, c4, Defer] s0 = Some ?s5"
    by (simp only: run.simps 1 2 3 4 5 option.case)
  show ?thesis
    apply (rule exI[of _ ?s5], rule exI[of _ "moduleNames mm1"], rule exI[of _ ?k1],
           rule exI[of _ "moduleNames mm2"], rule exI[of _ ?k2])
    apply (simp only: r)
    apply (simp add: emit_def)
    done
qed

lemma syncSession_two:
  "map_option (\<lambda>s. (trace s, control s, frames s, gates s, warnings s)) (syncSession [''a'', ''zz''] 35) =
   Some ([Requested 0 [''a'', ''zz''], LoaderCalled [], Handed None Undefined,
          Counted 0, LoaderCalled [], Handed (Some 2) (Inst 6), LoaderCalled [],
          LoaderCalled [], Signalled 0 Prop, LoaderCalled [], Signalled 0 Setter,
          Opened 0, Counted 0, Applied 0 [Inst 6, Undefined],
          Called 0 [Inst 6, Undefined], ReturnedThis],
         [],
         [\<lparr>f_ids = [''a'', ''zz''], f_instances = [Inst 6, Undefined], f_count = 0, f_cb = UserCallback 0\<rparr>],
         [\<lparr>c_prop = True, c_setter = True, g_cb = Done 0\<rparr>],
         [''`zz` has not been added to the Ioc''])"
  by code_simp


lemma syncSession_two_obtain:
  obtains s where
    "play (specParser plainOutside) plainOutside
       (Request (IdArray [''a'', ''zz'']) 0 # replicate 35 (Step Sync)) (idle twoComponents) = Some s"
    "syncSession [''a'', ''zz''] 35 = Some s"
    "trace s = [Requested 0 [''a'', ''zz''], LoaderCalled [], Handed None Undefined,
          Counted 0, LoaderCalled [], Handed (Some 2) (Inst 6), LoaderCalled [],
          LoaderCalled [], Signalled 0 Prop, LoaderCalled [], Signalled 0 Setter,
          Opened 0, Counted 0, Applied 0 [Inst 6, Undefined],
          Called 0 [Inst 6, Undefined], ReturnedThis]"
    "control s = []"
    "frames s = [\<lparr>f_ids = [''a'', ''zz''], f_instances = [Inst 6, Undefined], f_count = 0, f_cb = UserCallback 0\<rparr>]"
    "gates s = [\<lparr>c_prop = True, c_setter = True, g_cb = Done 0\<rparr>]"
    "warnings s = [''`zz` has not been added to the Ioc'']"
  using syncSession_two unfolding syncSession_def by auto

section \<open>Requests\<close>








text \<open>
  C9.  \<^verbatim>\<open>injectDeps\<close> starts both injections before either has completed: with a
  loader that keeps its callbacks for later, the request of the property
  dependencies and the request of the setter dependencies are both pending, each
  holding its own signal, and the gate is shut.  In every session each of the two
  signals of a gate has been given once if its flag is set and never otherwise,
  the callback of the gate has been let through once if both flags are set and
  never otherwise, and it is let through only after both signals.
\<close>

theorem injectDeps_gate:
  assumes run: "play P E acts (idle r) = Some s"
  shows "(\<forall>s0 inst a cb vs rest c c1 c2 c4.
            control s0 = Invoke (InjectDeps inst a cb) vs # rest \<and> objects s0 a = Some c \<longrightarrow>
            (\<exists>s5 ms1 k1 ms2 k2. run P E [c1, c2, Defer, c4, Defer] s0 = Some s5 \<and> control s5 = rest \<and>
               pending s5 = pending s0 @ [(ms1, k1), (ms2, k2)] \<and>
               kt (\<lambda>x. x = GateTok (length (gates s0)) Prop) k1 = 1 \<and>
               kt (\<lambda>x. x = GateTok (length (gates s0)) Setter) k2 = 1 \<and>
               gates s5 = gates s0 @ [\<lparr>c_prop = False, c_setter = False, g_cb = cb\<rparr>] \<and>
               trace s5 = trace s0 @ [LoaderCalled ms1, LoaderCalled ms2])) \<and>
    (\<forall>g ty. tally (\<lambda>e. e = Signalled g ty) (trace s) =
               (if g < length (gates s) \<and> flag ty (gates s ! g) then 1 else 0)) \<and>
    (\<forall>g. tally (\<lambda>e. e = Opened g) (trace s) =
               (if g < length (gates s) \<and> c_prop (gates s ! g) \<and> c_setter (gates s ! g) then 1 else 0)) \<and>
    (\<forall>pre g post. trace s = pre @ Opened g # post \<longrightarrow>
               Signalled g Prop \<in> set pre \<and> Signalled g Setter \<in> set pre)"
proof -
  let ?V = "(components r, control s, pending s, frames s, gates s, trace s)"
  note snd = session_view[OF run]
  from snd have acc: "accounts ?V" and ord: "inOrder (frames s) (trace s)"
    by (simp_all add: sound_def)
  from acc have aS: "accS ?V" by (simp add: accounts_def)
  have 1: "\<exists>s5 ms1 k1 ms2 k2. run P E [c1, c2, Defer, c4, Defer] s0 = Some s5 \<and> control s5 = rest \<and>
               pending s5 = pending s0 @ [(ms1, k1), (ms2, k2)] \<and>
               kt (\<lambda>x. x = GateTok (length (gates s0)) Prop) k1 = 1 \<and>
               kt (\<lambda>x. x = GateTok (length (gates s0)) Setter) k2 = 1 \<and>
               gates s5 = gates s0 @ [\<lparr>c_prop = False, c_setter = False, g_cb = cb\<rparr>] \<and>
               trace s5 = trace s0 @ [LoaderCalled ms1, LoaderCalled ms2]"
    if "control s0 = Invoke (InjectDeps inst a cb) vs # rest \<and> objects s0 a = Some c"
    for s0 inst a cb vs rest c c1 c2 c4
    using that injectDeps_concurrent by blast
  have 2: "tally (\<lambda>e. e = Signalled g ty) (trace s) =
               (if g < length (gates s) \<and> flag ty (gates s ! g) then 1 else 0)" for g ty
    using accS_D[OF aS, of g ty] by simp
  have 3: "tally (\<lambda>e. e = Opened g) (trace s) =
               (if g < length (gates s) \<and> c_prop (gates s ! g) \<and> c_setter (gates s ! g) then 1 else 0)" for g
    using accS_D[OF aS, of g Prop] by simp
  have 4: "Signalled g Prop \<in> set pre \<and> Signalled g Setter \<in> set pre"
    if "trace s = pre @ Opened g # post" for pre g post
    using ord that unfolding inOrder_def by fastforce
  from 1 2 3 4 show ?thesis by blast
qed

text \<open>
  The request of \<^verbatim>\<open>[a, zz]\<close>: the gate of the instance of \<^verbatim>\<open>a\<close> received both signals
  and let its callback through once, after them.
\<close>

theorem injectDeps_gate_witness:
  "\<exists>s. syncSession [''a'', ''zz''] 35 = Some s \<and>
       tally (\<lambda>e. e = Signalled 0 Prop) (trace s) = 1 \<and>
       tally (\<lambda>e. e = Signalled 0 Setter) (trace s) = 1 \<and>
       tally (\<lambda>e. e = Opened 0) (trace s) = 1 \<and>
       Signalled 0 Prop \<in> set (take 11 (trace s)) \<and> Signalled 0 Setter \<in> set (take 11 (trace s))"
proof -
  obtain s where s: "play (specParser plainOutside) plainOutside
       (Request (IdArray [''a'', ''zz'']) 0 # replicate 35 (Step Sync)) (idle twoComponents) = Some s"
    "syncSession [''a'', ''zz''] 35 = Some s"
    and tr: "trace s = [Requested 0 [''a'', ''zz''], LoaderCalled [], Handed None Undefined,
          Counted 0, LoaderCalled [], Handed (Some 2) (Inst 6), LoaderCalled [],
          LoaderCalled [], Signalled 0 Prop, LoaderCalled [], Signalled 0 Setter,
          Opened 0, Counted 0, Applied 0 [Inst 6, Undefined],
          Called 0 [Inst 6, Undefined], ReturnedThis]"
    and g: "gates s = [\<lparr>c_prop = True, c_setter = True, g_cb = Done 0\<rparr>]"
    by (rule syncSession_two_obtain)
  note T = injectDeps_gate[OF s(1)]
  from T have "tally (\<lambda>e. e = Signalled 0 Prop) (trace s) =
               (if 0 < length (gates s) \<and> flag Prop (gates s ! 0) then 1 else 0)" by blast
  then have 1: "tally (\<lambda>e. e = Signalled 0 Prop) (trace s) = 1" by (simp add: g)
  from T have "tally (\<lambda>e. e = Signalled 0 Setter) (trace s) =
               (if 0 < length (gates s) \<and> flag Setter (gates s ! 0) then 1 else 0)" by blast
  then have 2: "tally (\<lambda>e. e = Signalled 0 Setter) (trace s) = 1" by (simp add: g)
  from T have "tally (\<lambda>e. e = Opened 0) (trace s) =
               (if 0 < length (gates s) \<and> c_prop (gates s ! 0) \<and> c_setter (gates s ! 0) then 1 else 0)" by blast
  then have 3: "tally (\<lambda>e. e = Opened 0) (trace s) = 1" by (simp add: g)
  have d: "trace s = take 11 (trace s) @ Opened 0 # drop 12 (trace s)" by (simp add: tr)
  from T d have 4: "Signalled 0 Prop \<in> set (take 11 (trace s)) \<and> Signalled 0 Setter \<in> set (take 11 (trace s))"
    by blast
  from s(2) 1 2 3 4 show ?thesis by blast
qed

text \<open>
  C10.  For every argument \<open>ids\<close> and every callback, a call of \<^verbatim>\<open>getComponent\<close> whose
  loader keeps the callback for later reaches \<^verbatim>\<open>return this\<close> right after the call
  of the loader, whether the ids are registered or not.  In every session, every
  call of \<^verbatim>\<open>getComponent\<close> from outside has returned \<^verbatim>\<open>this\<close> or is still running,
  unless an exception has ended a turn; and it returns at most once.
\<close>

theorem getComponent_returns_this:
  assumes run: "play P E acts (idle r) = Some s"
  shows "(\<forall>ids t s0 c1 c3. \<exists>s1 ms k. run P E [c1, Defer, c3] (request ids t s0) = Some s1 \<and>
            control s1 = [] \<and> pending s1 = pending s0 @ [(ms, k)] \<and>
            trace s1 = trace s0 @ [Requested t (normalize ids), LoaderCalled ms, ReturnedThis]) \<and>
    tally (\<lambda>e. e = ReturnedThis) (trace s) + length (filter (\<lambda>c. c = ReturnThis) (control s))
      \<le> tally isRequest (trace s) \<and>
    tally isRequest (trace s)
      \<le> tally (\<lambda>e. e = ReturnedThis) (trace s) + length (filter (\<lambda>c. c = ReturnThis) (control s))
          + tally isThrew (trace s)"
proof -
  from session_view[OF run]
  have "returns (components r, control s, pending s, frames s, gates s, trace s)"
    by (simp add: sound_def)
  with request_returns show ?thesis by simp
qed

text \<open>
  The request of \<^verbatim>\<open>[a, zz]\<close> with a loader that calls back before it returns: after
  all the work the call returns \<^verbatim>\<open>this\<close>.
\<close>

theorem getComponent_returns_this_witness:
  "\<exists>s. syncSession [''a'', ''zz''] 35 = Some s \<and> control s = [] \<and>
       tally isRequest (trace s) = 1 \<and> tally isThrew (trace s) = 0 \<and>
       tally (\<lambda>e. e = ReturnedThis) (trace s) + length (filter (\<lambda>c. c = ReturnThis) (control s))
         \<le> tally isRequest (trace s) \<and>
       tally isRequest (trace s)
         \<le> tally (\<lambda>e. e = ReturnedThis) (trace s) + length (filter (\<lambda>c. c = ReturnThis) (control s))
            + tally isThrew (trace s)"
proof -
  obtain s where s: "play (specParser plainOutside) plainOutside
       (Request (IdArray [''a'', ''zz'']) 0 # replicate 35 (Step Sync)) (idle twoComponents) = Some s"
    "syncSession [''a'', ''zz''] 35 = Some s"
    and tr: "trace s = [Requested 0 [''a'', ''zz''], LoaderCalled [], Handed None Undefined,
          Counted 0, LoaderCalled [], Handed (Some 2) (Inst 6), LoaderCalled [],
          LoaderCalled [], Signalled 0 Prop, LoaderCalled [], Signalled 0 Setter,
          Opened 0, Counted 0, Applied 0 [Inst 6, Undefined],
          Called 0 [Inst 6, Undefined], ReturnedThis]"
    and c: "control s = []"
    by (rule syncSession_two_obtain)
  note T = getComponent_returns_this[OF s(1)]
  have 1: "tally isRequest (trace s) = 1" "tally isThrew (trace s) = 0" by (simp_all add: tr)
  from T s(2) c 1 show ?thesis by blast
qed

end
